theory Spec2Isabelle
  imports Complex_Main "HOL-Library.AList" "HOL-Library.Product_Lexorder"
begin

section \<open>Python values used by the path finder\<close>

text \<open>
  The exceptions the modelled code can raise. A function that can raise returns
  \<open>error + 'a\<close>, with \<open>Inl\<close> for the exception.
\<close>

datatype error = IndexError | KeyError | AttributeError | ValueError | ZeroDivisionError

text \<open>
  The floats of the source are the finite terrain costs \<open>0.5, 1.0, 3.0, 4.0, 5.0\<close>, their
  sums and quotients, and \<open>float('inf')\<close>. Finite values are modelled by exact rationals
  (the listed costs and their sums are exact binary fractions), \<open>float('inf')\<close> by \<open>PosInf\<close>.
\<close>

datatype pyfloat = Num rat | PosInf

instantiation pyfloat :: ordered_comm_monoid_add
begin

definition zero_pyfloat :: pyfloat where
  "zero_pyfloat = Num 0"

fun plus_pyfloat :: "pyfloat \<Rightarrow> pyfloat \<Rightarrow> pyfloat" where
  "plus_pyfloat (Num a) (Num b) = Num (a + b)"
| "plus_pyfloat PosInf y = PosInf"
| "plus_pyfloat (Num a) PosInf = PosInf"

fun less_eq_pyfloat :: "pyfloat \<Rightarrow> pyfloat \<Rightarrow> bool" where
  "less_eq_pyfloat (Num a) (Num b) = (a \<le> b)"
| "less_eq_pyfloat x PosInf = True"
| "less_eq_pyfloat PosInf (Num b) = False"

fun less_pyfloat :: "pyfloat \<Rightarrow> pyfloat \<Rightarrow> bool" where
  "less_pyfloat (Num a) (Num b) = (a < b)"
| "less_pyfloat (Num a) PosInf = True"
| "less_pyfloat PosInf y = False"

lemma pyfloat_le_total: "(x::pyfloat) \<le> y \<or> y \<le> x"
  by (cases x; cases y; auto)

instance
proof
  fix x y z :: pyfloat
  show "x \<le> x"
    by (cases x; simp)
  show "(x < y) = (x \<le> y \<and> \<not> y \<le> x)"
    by (cases x; cases y; auto)
  show "x \<le> y \<Longrightarrow> y \<le> x \<Longrightarrow> x = y"
    by (cases x; cases y; simp)
  show "x \<le> y \<Longrightarrow> y \<le> z \<Longrightarrow> x \<le> z"
    by (cases x; cases y; cases z; simp)
  show "x \<le> y \<Longrightarrow> z + x \<le> z + y"
    by (cases x; cases y; cases z; simp)
  show "0 + x = x"
    by (cases x; simp add: zero_pyfloat_def)
  show "x + y = y + x"
    by (cases x; cases y; simp)
  show "x + y + z = x + (y + z)"
    by (cases x; cases y; cases z; simp)
qed

end

instance pyfloat :: linorder
  by standard (rule pyfloat_le_total)

section \<open>maze.py: the square grid\<close>

text \<open>
  A grid cell is a Python int (\<open>0\<close> free, \<open>1\<close> wall) or a string token. Strings are
  restricted to code points below 256, one \<open>char\<close> each.
\<close>

datatype cell = IntCell int | StrCell string

type_synonym position = "int \<times> int"

record maze =
  grid :: "cell list list"
  height :: int
  width :: int
  heroes :: "(cell \<times> position) list"
  end_pos :: "position option"

text \<open>
  \<open>str.isdigit\<close>: the string is not empty and every character is a digit. Below code
  point 256 the digits are \<open>0..9\<close> and the superscripts at \<open>0xB2\<close>, \<open>0xB3\<close>, \<open>0xB9\<close>.
\<close>

definition char_isdigit :: "char \<Rightarrow> bool" where
  "char_isdigit c =
     (let n = of_char c :: nat in (48 \<le> n \<and> n \<le> 57) \<or> n = 178 \<or> n = 179 \<or> n = 185)"

fun isdigit :: "cell \<Rightarrow> bool" where
  "isdigit (IntCell n) = False"
| "isdigit (StrCell s) = (s \<noteq> [] \<and> list_all char_isdigit s)"

text \<open>
  The scan of \<open>Maze.__init__\<close>: row by row, column by column; a later hero with the same
  token or a later \<open>'F'\<close> replaces the earlier one.
\<close>

definition scan_positions :: "nat \<Rightarrow> nat \<Rightarrow> (nat \<times> nat) list" where
  "scan_positions h w = concat (map (\<lambda>i. map (\<lambda>j. (i, j)) [0..<w]) [0..<h])"

definition scan_cell ::
  "cell list list \<Rightarrow> nat \<times> nat \<Rightarrow> (cell \<times> position) list \<times> position option
     \<Rightarrow> (cell \<times> position) list \<times> position option" where
  "scan_cell g ij st =
     (case ij of (i, j) \<Rightarrow> case st of (hs, e) \<Rightarrow>
        let c = g ! i ! j in
        if isdigit c then (AList.update c (int i, int j) hs, e)
        else if c = StrCell ''F'' then (hs, Some (int i, int j))
        else (hs, e))"

text \<open>
  \<open>Maze.__init__\<close> with an explicit grid. The width is the length of the first row; the
  scan reads \<open>grid[i][j]\<close> for every \<open>j < width\<close>, so a row shorter than the first raises
  IndexError and no maze is built.
\<close>

definition Maze_init :: "cell list list \<Rightarrow> error + maze" where
  "Maze_init g =
     (let h = length g;
          w = (if h > 0 then length (g ! 0) else 0)
      in if list_ex (\<lambda>row. length row < w) g then Inl IndexError
         else case fold (scan_cell g) (scan_positions h w) ([], None) of (hs, e) \<Rightarrow>
           Inr \<lparr>grid = g, height = int h, width = int w, heroes = hs, end_pos = e\<rparr>)"

definition is_valid_position :: "maze \<Rightarrow> position \<Rightarrow> bool" where
  "is_valid_position m p =
     (case p of (row, col) \<Rightarrow>
        if 0 \<le> row \<and> row < height m \<and> 0 \<le> col \<and> col < width m
        then grid m ! nat row ! nat col \<noteq> IntCell 1
        else False)"

definition Maze_get_neighbors :: "maze \<Rightarrow> position \<Rightarrow> position list" where
  "Maze_get_neighbors m p =
     (case p of (row, col) \<Rightarrow>
        filter (is_valid_position m) [(row - 1, col), (row + 1, col), (row, col - 1), (row, col + 1)])"

definition get_start_position :: "maze \<Rightarrow> position option" where
  "get_start_position m = map_of (heroes m) (StrCell ''1'')"

definition get_end_position :: "maze \<Rightarrow> position option" where
  "get_end_position m = end_pos m"

definition get_hero_positions :: "maze \<Rightarrow> (cell \<times> position) list" where
  "get_hero_positions m = heroes m"

definition get_all_valid_positions :: "maze \<Rightarrow> position list" where
  "get_all_valid_positions m =
     filter (is_valid_position m)
       (map (\<lambda>(i, j). (int i, int j)) (scan_positions (nat (height m)) (nat (width m))))"

section \<open>terrain_maze.py: terrain kinds and costs\<close>

record terrain_info =
  info_name :: string
  info_cost :: pyfloat
  info_passable :: bool
  info_color :: string

text \<open>
  A dict literal is built by storing its items in source order, so a key written twice
  keeps the value written last.
\<close>

definition dict_literal :: "('k \<times> 'v) list \<Rightarrow> ('k \<rightharpoonup> 'v)" where
  "dict_literal items = fold (\<lambda>(k, v) d. d(k \<mapsto> v)) items Map.empty"

definition TERRAIN_ITEMS :: "(cell \<times> terrain_info) list" where
  "TERRAIN_ITEMS =
    [(StrCell ''R'', \<lparr>info_name = ''Road'', info_cost = Num (1/2), info_passable = True, info_color = ''gray''\<rparr>),
     (StrCell ''G'', \<lparr>info_name = ''Grass'', info_cost = Num 1, info_passable = True, info_color = ''lightgreen''\<rparr>),
     (StrCell ''F'', \<lparr>info_name = ''Forest'', info_cost = Num 3, info_passable = True, info_color = ''darkgreen''\<rparr>),
     (StrCell ''H'', \<lparr>info_name = ''Hill'', info_cost = Num 4, info_passable = True, info_color = ''brown''\<rparr>),
     (StrCell ''S'', \<lparr>info_name = ''Swamp'', info_cost = Num 5, info_passable = True, info_color = ''olive''\<rparr>),
     (StrCell ''W'', \<lparr>info_name = ''Water'', info_cost = PosInf, info_passable = False, info_color = ''blue''\<rparr>),
     (StrCell ''M'', \<lparr>info_name = ''Mountain'', info_cost = PosInf, info_passable = False, info_color = ''black''\<rparr>),
     (StrCell '' '', \<lparr>info_name = ''Empty'', info_cost = PosInf, info_passable = False, info_color = ''white''\<rparr>),
     (StrCell ''#'', \<lparr>info_name = ''Wall'', info_cost = PosInf, info_passable = False, info_color = ''black''\<rparr>),
     (StrCell ''1'', \<lparr>info_name = ''Start'', info_cost = Num 1, info_passable = True, info_color = ''lightgreen''\<rparr>),
     (StrCell ''F'', \<lparr>info_name = ''Finish'', info_cost = Num 1, info_passable = True, info_color = ''lightgreen''\<rparr>),
     (StrCell ''2'', \<lparr>info_name = ''Hero2'', info_cost = Num 1, info_passable = True, info_color = ''lightgreen''\<rparr>),
     (StrCell ''3'', \<lparr>info_name = ''Hero3'', info_cost = Num 1, info_passable = True, info_color = ''lightgreen''\<rparr>),
     (StrCell ''4'', \<lparr>info_name = ''Hero4'', info_cost = Num 1, info_passable = True, info_color = ''lightgreen''\<rparr>),
     (StrCell ''5'', \<lparr>info_name = ''Hero5'', info_cost = Num 1, info_passable = True, info_color = ''lightgreen''\<rparr>),
     (StrCell ''6'', \<lparr>info_name = ''Hero6'', info_cost = Num 1, info_passable = True, info_color = ''lightgreen''\<rparr>),
     (StrCell ''7'', \<lparr>info_name = ''Hero7'', info_cost = Num 1, info_passable = True, info_color = ''lightgreen''\<rparr>),
     (StrCell ''8'', \<lparr>info_name = ''Hero8'', info_cost = Num 1, info_passable = True, info_color = ''lightgreen''\<rparr>),
     (StrCell ''9'', \<lparr>info_name = ''Hero9'', info_cost = Num 1, info_passable = True, info_color = ''lightgreen''\<rparr>)]"

definition TERRAIN_TYPES :: "cell \<rightharpoonup> terrain_info" where
  "TERRAIN_TYPES = dict_literal TERRAIN_ITEMS"

definition unknown_terrain :: terrain_info where
  "unknown_terrain = \<lparr>info_name = ''Unknown'', info_cost = PosInf, info_passable = False, info_color = ''white''\<rparr>"

definition get_terrain_type :: "maze \<Rightarrow> position \<Rightarrow> cell" where
  "get_terrain_type m p =
     (if \<not> is_valid_position m p then StrCell '' ''
      else case p of (row, col) \<Rightarrow> grid m ! nat row ! nat col)"

definition get_terrain_info :: "maze \<Rightarrow> position \<Rightarrow> terrain_info" where
  "get_terrain_info m p =
     (case TERRAIN_TYPES (get_terrain_type m p) of
        Some info \<Rightarrow> info
      | None \<Rightarrow> unknown_terrain)"

definition get_terrain_cost :: "maze \<Rightarrow> position \<Rightarrow> pyfloat" where
  "get_terrain_cost m p = info_cost (get_terrain_info m p)"

definition is_passable :: "maze \<Rightarrow> position \<Rightarrow> bool" where
  "is_passable m p =
     (if \<not> is_valid_position m p then False else info_passable (get_terrain_info m p))"

definition TerrainMaze_get_neighbors :: "maze \<Rightarrow> position \<Rightarrow> position list" where
  "TerrainMaze_get_neighbors m p =
     (case p of (row, col) \<Rightarrow>
        filter (is_passable m) [(row - 1, col), (row + 1, col), (row, col - 1), (row, col + 1)])"


section \<open>pathfinder.py: breadth-first search\<close>

text \<open>
  The queue is a list (\<open>popleft\<close> takes the head, \<open>append\<close> adds at the end); the dict
  \<open>visited\<close> maps a position to its predecessor, the start to Python's \<open>None\<close>.
  A loop that need not end is a partial function: the result \<open>None\<close> of the outer
  option type means that the loop runs forever.
\<close>

type_synonym 'a predecessors = "'a \<rightharpoonup> 'a option"

text \<open>
  \<open>while current: path.append(current); current = visited[current]\<close>. A position is a
  non-empty tuple and so is true; the loop ends at the predecessor \<open>None\<close>.
\<close>

partial_function (option) walk_back ::
  "'a predecessors \<Rightarrow> 'a option \<Rightarrow> 'a list \<Rightarrow> (error + 'a list) option" where
  "walk_back visited current path =
     (case current of
        None \<Rightarrow> Some (Inr path)
      | Some c \<Rightarrow>
          (case visited c of
             None \<Rightarrow> Some (Inl KeyError)
           | Some prev \<Rightarrow> walk_back visited prev (path @ [c])))"

definition bfs_visit ::
  "'a \<Rightarrow> 'a \<Rightarrow> 'a list \<times> 'a predecessors \<Rightarrow> 'a list \<times> 'a predecessors" where
  "bfs_visit current neighbor st =
     (case st of (queue, visited) \<Rightarrow>
        if visited neighbor = None then (queue @ [neighbor], visited(neighbor \<mapsto> Some current))
        else (queue, visited))"

partial_function (option) bfs_loop ::
  "('a \<Rightarrow> 'a list) \<Rightarrow> 'a \<Rightarrow> 'a list \<Rightarrow> 'a predecessors
     \<Rightarrow> (error + 'a list option) option" where
  "bfs_loop nbrs e queue visited =
     (case queue of
        [] \<Rightarrow> Some (Inr None)
      | current # rest \<Rightarrow>
          if current = e then
            (case walk_back visited (Some current) [] of
               None \<Rightarrow> None
             | Some (Inl err) \<Rightarrow> Some (Inl err)
             | Some (Inr path) \<Rightarrow> Some (Inr (Some (rev path))))
          else
            (case fold (bfs_visit current) (nbrs current) (rest, visited) of
               (queue', visited') \<Rightarrow> bfs_loop nbrs e queue' visited'))"

text \<open>
  \<open>PathFinder.bfs\<close>. The neighbours come from the maze object: \<open>Maze.get_neighbors\<close> for a
  \<open>Maze\<close>, the overriding \<open>TerrainMaze.get_neighbors\<close> for a \<open>TerrainMaze\<close>.
\<close>

definition bfs ::
  "(maze \<Rightarrow> position \<Rightarrow> position list) \<Rightarrow> maze \<Rightarrow> (error + position list option) option" where
  "bfs get_neighbors m =
     (case get_start_position m of
        None \<Rightarrow> Some (Inr None)
      | Some start \<Rightarrow>
          (case get_end_position m of
             None \<Rightarrow> Some (Inr None)
           | Some e \<Rightarrow> bfs_loop (get_neighbors m) e [start] [start \<mapsto> None]))"

definition PathFinder_bfs :: "maze \<Rightarrow> (error + position list option) option" where
  "PathFinder_bfs m = bfs Maze_get_neighbors m"

section \<open>terrain_pathfinder.py: Dijkstra\<close>

text \<open>
  \<open>heapq\<close> is the standard library's binary heap. What its callers observe is that
  \<open>heappop\<close> removes and returns a smallest item; the items here are tuples of numbers,
  totally ordered lexicographically, so equal items cannot be told apart and the sequence
  of popped items depends on the pushed items only. The model keeps the items in a list.
\<close>

definition heappush :: "'a list \<Rightarrow> 'a \<Rightarrow> 'a list" where
  "heappush h x = h @ [x]"

definition heappop :: "('a::linorder) list \<Rightarrow> 'a \<times> 'a list" where
  "heappop h = (let x = Min (set h) in (x, remove1 x h))"

type_synonym 'a dijkstra_state =
  "(pyfloat \<times> 'a) list \<times> ('a \<rightharpoonup> pyfloat) \<times> 'a predecessors"

text \<open>
  The body of the loop over the neighbours. \<open>terrain_cost\<close> is the maze's
  \<open>get_terrain_cost\<close>.
\<close>

definition relax ::
  "('a \<Rightarrow> pyfloat) \<Rightarrow> pyfloat \<Rightarrow> 'a \<Rightarrow> 'a \<Rightarrow> 'a dijkstra_state \<Rightarrow> 'a dijkstra_state" where
  "relax terrain_cost current_cost current_pos next_pos st =
     (case st of (priority_queue, cost_so_far, came_from) \<Rightarrow>
        let new_cost = current_cost + terrain_cost next_pos;
            better = (case cost_so_far next_pos of None \<Rightarrow> True | Some old \<Rightarrow> new_cost < old)
        in if better
           then (heappush priority_queue (new_cost, next_pos),
                 cost_so_far(next_pos \<mapsto> new_cost),
                 came_from(next_pos \<mapsto> Some current_pos))
           else st)"

text \<open>
  The \<open>while priority_queue\<close> loop; it ends when the queue is empty or, by \<open>break\<close>, when
  the end position is popped. \<open>nbrs\<close> is the maze's \<open>get_neighbors\<close>.
\<close>

partial_function (option) dijkstra_loop ::
  "('a \<Rightarrow> 'a list) \<times> ('a \<Rightarrow> pyfloat) \<Rightarrow> 'a::linorder \<Rightarrow> 'a dijkstra_state
     \<Rightarrow> (error + 'a dijkstra_state) option" where
  "dijkstra_loop mz e st =
     (case mz of (nbrs, terrain_cost) \<Rightarrow>
      case st of (priority_queue, cost_so_far, came_from) \<Rightarrow>
        if priority_queue = [] then Some (Inr st)
        else
          (case heappop priority_queue of ((current_cost, current_pos), rest) \<Rightarrow>
             if current_pos = e then Some (Inr (rest, cost_so_far, came_from))
             else
               (case cost_so_far current_pos of
                  None \<Rightarrow> Some (Inl KeyError)
                | Some known \<Rightarrow>
                    if current_cost > known then dijkstra_loop mz e (rest, cost_so_far, came_from)
                    else dijkstra_loop mz e
                           (fold (relax terrain_cost current_cost current_pos)
                              (nbrs current_pos)
                              (rest, cost_so_far, came_from)))))"

text \<open>
  \<open>TerrainPathFinder.dijkstra\<close>; its maze is a \<open>TerrainMaze\<close>.
\<close>

definition dijkstra :: "maze \<Rightarrow> (error + position list option) option" where
  "dijkstra m =
     (case get_start_position m of
        None \<Rightarrow> Some (Inr None)
      | Some start \<Rightarrow>
          (case get_end_position m of
             None \<Rightarrow> Some (Inr None)
           | Some e \<Rightarrow>
               (case dijkstra_loop (TerrainMaze_get_neighbors m, get_terrain_cost m) e
                       ([(0, start)], [start \<mapsto> 0], [start \<mapsto> None]) of
                  None \<Rightarrow> None
                | Some (Inl err) \<Rightarrow> Some (Inl err)
                | Some (Inr (priority_queue, cost_so_far, came_from)) \<Rightarrow>
                    if came_from e = None then Some (Inr None)
                    else
                      (case walk_back came_from (Some e) [] of
                         None \<Rightarrow> None
                       | Some (Inl err) \<Rightarrow> Some (Inl err)
                       | Some (Inr path) \<Rightarrow> Some (Inr (Some (rev path)))))))"

text \<open>
  \<open>get_path_cost\<close>: the costs of all cells of the path but the first, added from the left.
\<close>

definition get_path_cost :: "maze \<Rightarrow> position list \<Rightarrow> pyfloat" where
  "get_path_cost m path =
     (if path = [] \<or> length path < 2 then 0
      else fold (\<lambda>i total_cost. total_cost + get_terrain_cost m (path ! i)) [1..<length path] 0)"

section \<open>equidistant_finder.py: the meeting point by hop counts\<close>

text \<open>
  \<open>calculate_distances\<close>: breadth-first hop counts from one position. The start position
  comes from the heroes dict and is never \<open>None\<close>.
\<close>

definition calc_visit ::
  "nat \<Rightarrow> position \<Rightarrow> (position \<times> nat) list \<times> (position \<rightharpoonup> nat)
     \<Rightarrow> (position \<times> nat) list \<times> (position \<rightharpoonup> nat)" where
  "calc_visit d neighbor st =
     (case st of (queue, distances) \<Rightarrow>
        if distances neighbor = None
        then (queue @ [(neighbor, d + 1)], distances(neighbor \<mapsto> d + 1))
        else (queue, distances))"

partial_function (option) calc_loop ::
  "(position \<Rightarrow> position list) \<Rightarrow> (position \<times> nat) list \<Rightarrow> (position \<rightharpoonup> nat)
     \<Rightarrow> (position \<rightharpoonup> nat) option" where
  "calc_loop nbrs queue distances =
     (case queue of
        [] \<Rightarrow> Some distances
      | (pos, d) # rest \<Rightarrow>
          (case fold (calc_visit d) (nbrs pos) (rest, distances) of
             (queue', distances') \<Rightarrow> calc_loop nbrs queue' distances'))"

definition calculate_distances ::
  "(position \<Rightarrow> position list) \<Rightarrow> position \<Rightarrow> (position \<rightharpoonup> nat) option" where
  "calculate_distances nbrs start_pos = calc_loop nbrs [(start_pos, 0)] [start_pos \<mapsto> 0]"

text \<open>The dict \<open>hero_distances\<close>, one entry per hero in the order of the heroes dict.\<close>

fun hero_distance_maps ::
  "(position \<Rightarrow> position list) \<Rightarrow> (cell \<times> position) list
     \<Rightarrow> (cell \<times> (position \<rightharpoonup> nat)) list option" where
  "hero_distance_maps nbrs [] = Some []"
| "hero_distance_maps nbrs ((hero_id, pos) # rest) =
     (case calculate_distances nbrs pos of
        None \<Rightarrow> None
      | Some d \<Rightarrow>
          (case hero_distance_maps nbrs rest of
             None \<Rightarrow> None
           | Some ds \<Rightarrow> Some ((hero_id, d) # ds)))"

text \<open>
  The inner loop over the heroes: the distances of a position from every hero, or \<open>None\<close>
  as soon as one hero does not reach it.
\<close>

fun distances_from_all :: "(cell \<times> (position \<rightharpoonup> nat)) list \<Rightarrow> position \<Rightarrow> nat list option" where
  "distances_from_all [] pos = Some []"
| "distances_from_all ((hero_id, d) # rest) pos =
     (case d pos of
        None \<Rightarrow> None
      | Some k \<Rightarrow> map_option ((#) k) (distances_from_all rest pos))"

definition consider_position ::
  "(cell \<times> position) list \<Rightarrow> (cell \<times> (position \<rightharpoonup> nat)) list \<Rightarrow> position
     \<Rightarrow> position option \<times> pyfloat \<Rightarrow> position option \<times> pyfloat" where
  "consider_position hs hero_distances pos st =
     (case st of (best_point, min_max_distance) \<Rightarrow>
        if pos \<in> snd ` set hs then st
        else
          (case distances_from_all hero_distances pos of
             None \<Rightarrow> st
           | Some distances \<Rightarrow>
               let min_dist = Min (set distances);
                   max_dist = Max (set distances)
               in if min_dist = max_dist \<and> Num (of_nat max_dist) < min_max_distance
                  then (Some pos, Num (of_nat max_dist))
                  else if Num (of_nat max_dist) < min_max_distance
                  then (Some pos, Num (of_nat max_dist))
                  else st))"

text \<open>
  \<open>find_equidistant_point\<close>. With at least two heroes the list \<open>distances\<close> is never empty
  where \<open>min\<close> and \<open>max\<close> are taken.
\<close>

definition find_equidistant_point ::
  "(maze \<Rightarrow> position \<Rightarrow> position list) \<Rightarrow> maze \<Rightarrow> (position \<times> pyfloat) option option" where
  "find_equidistant_point get_neighbors m =
     (let hs = get_hero_positions m in
      if length hs < 2 then Some None
      else
        (case hero_distance_maps (get_neighbors m) hs of
           None \<Rightarrow> None
         | Some hero_distances \<Rightarrow>
             (case fold (consider_position hs hero_distances) (get_all_valid_positions m)
                     (None, PosInf) of
                (None, min_max_distance) \<Rightarrow> Some None
              | (Some best_point, min_max_distance) \<Rightarrow> Some (Some (best_point, min_max_distance)))))"

section \<open>terrain_equidistant_finder.py: the meeting point by arrival times\<close>

fun fold_err :: "('a \<Rightarrow> 's \<Rightarrow> error + 's) \<Rightarrow> 'a list \<Rightarrow> 's \<Rightarrow> error + 's" where
  "fold_err f [] s = Inr s"
| "fold_err f (x # xs) s = (case f x s of Inl e \<Rightarrow> Inl e | Inr s' \<Rightarrow> fold_err f xs s')"

text \<open>
  \<open>terrain_cost / speed\<close>. The costs divided are those of passable neighbours, which are
  finite; an infinite cost over a positive speed stays infinite.
\<close>

definition fdiv :: "pyfloat \<Rightarrow> rat \<Rightarrow> error + pyfloat" where
  "fdiv x speed =
     (if speed = 0 then Inl ZeroDivisionError
      else case x of Num a \<Rightarrow> Inr (Num (a / speed)) | PosInf \<Rightarrow> Inr PosInf)"

text \<open>
  The dict \<open>distances\<close> (a \<open>defaultdict(dict)\<close>) is iterated later, so it is an association
  list in insertion order: position, then source index, then arrival time.
\<close>

type_synonym arrival_times = "(position \<times> (nat \<times> pyfloat) list) list"

definition record_time :: "position \<Rightarrow> nat \<Rightarrow> pyfloat \<Rightarrow> arrival_times \<Rightarrow> arrival_times" where
  "record_time pos idx t distances =
     AList.update pos
       (AList.update idx t (case map_of distances pos of None \<Rightarrow> [] | Some tms \<Rightarrow> tms))
       distances"

definition relax_time ::
  "maze \<Rightarrow> rat \<Rightarrow> pyfloat \<Rightarrow> position
     \<Rightarrow> (pyfloat \<times> position) list \<times> (position \<rightharpoonup> pyfloat)
     \<Rightarrow> error + (pyfloat \<times> position) list \<times> (position \<rightharpoonup> pyfloat)" where
  "relax_time m speed current_time next_pos st =
     (case st of (priority_queue, time_so_far) \<Rightarrow>
        case fdiv (get_terrain_cost m next_pos) speed of
          Inl err \<Rightarrow> Inl err
        | Inr time_to_move \<Rightarrow>
            let new_time = current_time + time_to_move;
                better = (case time_so_far next_pos of None \<Rightarrow> True | Some old \<Rightarrow> new_time < old)
            in if better
               then Inr (heappush priority_queue (new_time, next_pos),
                         time_so_far(next_pos \<mapsto> new_time))
               else Inr st)"

text \<open>
  The \<open>while priority_queue\<close> loop for the source with index \<open>idx\<close> and speed \<open>speed\<close>.
\<close>

partial_function (option) source_loop ::
  "maze \<Rightarrow> nat \<times> rat
     \<Rightarrow> (pyfloat \<times> position) list \<times> (position \<rightharpoonup> pyfloat) \<times> arrival_times
     \<Rightarrow> (error + arrival_times) option" where
  "source_loop m src st =
     (case src of (idx, speed) \<Rightarrow>
      case st of (priority_queue, time_so_far, distances) \<Rightarrow>
        if priority_queue = [] then Some (Inr distances)
        else
          (case heappop priority_queue of ((current_time, current_pos), rest) \<Rightarrow>
             (case time_so_far current_pos of
                None \<Rightarrow> Some (Inl KeyError)
              | Some known \<Rightarrow>
                  if current_time > known then source_loop m src (rest, time_so_far, distances)
                  else
                    (case fold_err (relax_time m speed current_time)
                            (TerrainMaze_get_neighbors m current_pos) (rest, time_so_far) of
                       Inl err \<Rightarrow> Some (Inl err)
                     | Inr (priority_queue', time_so_far') \<Rightarrow>
                         source_loop m src
                           (priority_queue', time_so_far',
                            record_time current_pos idx current_time distances)))))"

fun compute_sources ::
  "maze \<Rightarrow> (nat \<times> position \<times> rat) list \<Rightarrow> arrival_times \<Rightarrow> (error + arrival_times) option" where
  "compute_sources m [] distances = Some (Inr distances)"
| "compute_sources m ((idx, source, speed) # rest) distances =
     (if \<not> is_valid_position m source then compute_sources m rest distances
      else
        (case source_loop m (idx, speed) ([(0, source)], [source \<mapsto> 0], distances) of
           None \<Rightarrow> None
         | Some (Inl err) \<Rightarrow> Some (Inl err)
         | Some (Inr distances') \<Rightarrow> compute_sources m rest distances'))"

definition compute_distances_with_costs ::
  "maze \<Rightarrow> position list \<Rightarrow> rat list option \<Rightarrow> (error + arrival_times) option" where
  "compute_distances_with_costs m sources speeds =
     (if sources = [] then Some (Inr [])
      else
        let speeds' = (case speeds of None \<Rightarrow> replicate (length sources) 1 | Some sp \<Rightarrow> sp)
        in if length sources \<noteq> length speeds' then Some (Inl ValueError)
           else compute_sources m (zip [0..<length sources] (zip sources speeds')) [])"

definition consider_point ::
  "nat \<Rightarrow> position \<times> (nat \<times> pyfloat) list \<Rightarrow> pyfloat \<times> position option
     \<Rightarrow> error + pyfloat \<times> position option" where
  "consider_point n item st =
     (case item of (pos, tms) \<Rightarrow> case st of (min_max_time, optimal_point) \<Rightarrow>
        if length tms \<noteq> n then Inr st
        else if tms = [] then Inl ValueError
        else
          let max_time = Max (set (map snd tms))
          in if max_time < min_max_time then Inr (max_time, Some pos) else Inr st)"

definition find_optimal_gathering_point ::
  "maze \<Rightarrow> position list \<Rightarrow> rat list option \<Rightarrow> (error + position option) option" where
  "find_optimal_gathering_point m hero_positions hero_speeds =
     (if hero_positions = [] then Some (Inr None)
      else
        (case compute_distances_with_costs m hero_positions hero_speeds of
           None \<Rightarrow> None
         | Some (Inl err) \<Rightarrow> Some (Inl err)
         | Some (Inr distances) \<Rightarrow>
             if distances = [] then Some (Inr None)
             else
               (case fold_err (consider_point (length hero_positions)) distances (PosInf, None) of
                  Inl err \<Rightarrow> Some (Inl err)
                | Inr (min_max_time, optimal_point) \<Rightarrow> Some (Inr optimal_point))))"

section \<open>hex_terrain_type.py, hex_cell.py, hex_map.py: the hexagonal map\<close>

text \<open>The sixteen terrain kinds of the enumeration \<open>HexTerrainType\<close>.\<close>

datatype HexTerrainType =
  GRASS | FOREST | HILLS | MOUNTAIN | WATER | SWAMP | DESERT | SNOW | LAVA
  | ROAD | CASTLE | VILLAGE | CAVE | WALL | START | END

text \<open>
  Every name the body of \<open>class HexTerrainType(Enum)\<close> binds, in source order: the terrain
  kinds, the two dicts and the two classmethods. The base class \<open>Enum\<close> adds none of
  \<open>get_cost\<close>, \<open>is_passable\<close>, \<open>get_name\<close>, \<open>from_symbol\<close>.
\<close>

definition HexTerrainType_names :: "string list" where
  "HexTerrainType_names =
     [''GRASS'', ''FOREST'', ''HILLS'', ''MOUNTAIN'', ''WATER'', ''SWAMP'', ''DESERT'', ''SNOW'',
      ''LAVA'', ''ROAD'', ''CASTLE'', ''VILLAGE'', ''CAVE'', ''WALL'', ''START'', ''END'',
      ''DESCRIPTIONS'', ''COLORS'', ''get_description'', ''get_color'']"

text \<open>
  \<open>HexTerrainType.<name>\<close>: looking up a name the class does not bind raises
  AttributeError, before any argument of a call is used.
\<close>

definition HexTerrainType_hasattr :: "string \<Rightarrow> bool" where
  "HexTerrainType_hasattr n = (n \<in> set HexTerrainType_names)"

text \<open>
  A cell of the hexagonal map. \<open>s\<close> is computed from \<open>q\<close> and \<open>r\<close>. \<open>__eq__\<close> and
  \<open>__hash__\<close> use \<open>(q, r)\<close> only, so dicts and sets of cells are keyed by \<open>coords\<close>.
\<close>

datatype hexcell = HexCell (cell_q: int) (cell_r: int) (terrain_type: HexTerrainType)

definition cell_s :: "hexcell \<Rightarrow> int" where
  "cell_s c = - cell_q c - cell_r c"

definition coords :: "hexcell \<Rightarrow> int \<times> int" where
  "coords c = (cell_q c, cell_r c)"

definition HexCell_distance :: "hexcell \<Rightarrow> hexcell \<Rightarrow> int" where
  "HexCell_distance a b =
     max \<bar>cell_q a - cell_q b\<bar> (max \<bar>cell_r a - cell_r b\<bar> \<bar>cell_s a - cell_s b\<bar>)"

text \<open>\<open>a.distance(b)\<close> where either may be \<open>None\<close>: \<open>None\<close> has no attribute \<open>distance\<close> or \<open>q\<close>.\<close>

definition distance_opt :: "hexcell option \<Rightarrow> hexcell option \<Rightarrow> error + int" where
  "distance_opt a b =
     (case a of
        None \<Rightarrow> Inl AttributeError
      | Some a' \<Rightarrow> (case b of None \<Rightarrow> Inl AttributeError | Some b' \<Rightarrow> Inr (HexCell_distance a' b')))"

definition HexCell_get_neighbors :: "hexcell \<Rightarrow> (int \<times> int) list" where
  "HexCell_get_neighbors c =
     map (\<lambda>(dir_q, dir_r). (cell_q c + dir_q, cell_r c + dir_r))
       [(1, 0), (1, -1), (0, -1), (-1, 0), (-1, 1), (0, 1)]"

record hex_map =
  cells :: "int \<times> int \<rightharpoonup> hexcell"
  map_start :: "hexcell option"
  map_end :: "hexcell option"

definition HexMap_init :: hex_map where
  "HexMap_init = \<lparr>cells = Map.empty, map_start = None, map_end = None\<rparr>"

definition add_cell :: "hex_map \<Rightarrow> int \<Rightarrow> int \<Rightarrow> HexTerrainType \<Rightarrow> hex_map" where
  "add_cell hm cq cr t =
     (let c = HexCell cq cr t;
          hm' = hm\<lparr>cells := (cells hm)((cq, cr) \<mapsto> c)\<rparr>
      in if t = START then hm'\<lparr>map_start := Some c\<rparr>
         else if t = END then hm'\<lparr>map_end := Some c\<rparr>
         else hm')"

definition HexMap_get_neighbors :: "hex_map \<Rightarrow> hexcell \<Rightarrow> hexcell list" where
  "HexMap_get_neighbors hm c = List.map_filter (cells hm) (HexCell_get_neighbors c)"

section \<open>race.py: modifiers of an agent class\<close>

text \<open>
  A race is its table \<open>terrain_modifiers\<close>. The base class \<open>Race\<close> has the modifier
  \<open>1.0\<close> for every kind; the subclasses override the table.
\<close>

record race =
  terrain_modifiers :: "HexTerrainType \<rightharpoonup> pyfloat"

definition Race :: race where
  "Race = \<lparr>terrain_modifiers = (\<lambda>t. Some (Num 1))\<rparr>"

definition get_terrain_modifier :: "race \<Rightarrow> HexTerrainType \<Rightarrow> pyfloat" where
  "get_terrain_modifier rc t = (case terrain_modifiers rc t of None \<Rightarrow> Num 1 | Some md \<Rightarrow> md)"

definition get_movement_cost :: "race \<Rightarrow> HexTerrainType \<Rightarrow> pyfloat" where
  "get_movement_cost rc t =
     (let modifier = (case terrain_modifiers rc t of None \<Rightarrow> Num 1 | Some md \<Rightarrow> md)
      in if modifier = PosInf then PosInf else modifier)"

text \<open>
  The product of two floats, for positive factors: infinite as soon as one factor is.
\<close>

fun fmul :: "pyfloat \<Rightarrow> pyfloat \<Rightarrow> pyfloat" where
  "fmul (Num a) (Num b) = Num (a * b)"
| "fmul PosInf y = PosInf"
| "fmul (Num a) PosInf = PosInf"

text \<open>
  \<open>Race.get_modified_cost\<close> and \<open>Race.is_passable\<close> start by calling
  \<open>HexTerrainType.get_cost\<close> and \<open>HexTerrainType.is_passable\<close>. The first parameter is what
  the looked-up attribute would compute if the class bound the name.
\<close>

definition get_modified_cost ::
  "(HexTerrainType \<Rightarrow> pyfloat) \<Rightarrow> race \<Rightarrow> HexTerrainType \<Rightarrow> error + pyfloat" where
  "get_modified_cost get_cost rc t =
     (if \<not> HexTerrainType_hasattr ''get_cost'' then Inl AttributeError
      else
        let base_cost = get_cost t;
            modifier = get_terrain_modifier rc t
        in Inr (fmul base_cost modifier))"

definition Race_is_passable ::
  "(HexTerrainType \<Rightarrow> bool) \<Rightarrow> race \<Rightarrow> HexTerrainType \<Rightarrow> error + bool" where
  "Race_is_passable passable_attr rc t =
     (if \<not> HexTerrainType_hasattr ''is_passable'' then Inl AttributeError
      else if \<not> passable_attr t then
        (if t \<in> set [WALL, LAVA, MOUNTAIN] then Inr False
         else Inr (get_terrain_modifier rc t < PosInf))
      else Inr True)"

section \<open>hex_maze.py: the cost lookup of the hexagonal maze\<close>

text \<open>
  The maze maps cubic coordinates \<open>(q, r, s)\<close> to terrain kinds; \<open>terrain.get(position)\<close>
  is \<open>None\<close> for a coordinate that is not on the map.
\<close>

record hex_maze =
  terrain :: "int \<times> int \<times> int \<rightharpoonup> HexTerrainType"

definition HexMaze_get_terrain_type :: "hex_maze \<Rightarrow> int \<times> int \<times> int \<Rightarrow> HexTerrainType option" where
  "HexMaze_get_terrain_type hz position = terrain hz position"

definition HexMaze_get_terrain_cost ::
  "(HexTerrainType option \<Rightarrow> pyfloat) \<Rightarrow> hex_maze \<Rightarrow> int \<times> int \<times> int \<Rightarrow> error + pyfloat" where
  "HexMaze_get_terrain_cost get_cost hz position =
     (let t = HexMaze_get_terrain_type hz position
      in if \<not> HexTerrainType_hasattr ''get_cost'' then Inl AttributeError
         else Inr (get_cost t))"

section \<open>hex_a_star.py: A* on the hexagonal map\<close>

text \<open>
  An entry of the open set is \<open>(f_score, id(node), node)\<close>. \<open>id\<close> is the identity of the
  cell object that the map stores at a coordinate; it is a parameter \<open>ident\<close> of the model.
  Tuples are compared from the left, so entries are ordered by \<open>(f_score, id)\<close>.
\<close>

type_synonym open_entry = "pyfloat \<times> nat \<times> hexcell"

definition entry_key :: "open_entry \<Rightarrow> pyfloat \<times> nat" where
  "entry_key x = (case x of (f, i, node) \<Rightarrow> (f, i))"

definition astar_heappop :: "open_entry list \<Rightarrow> open_entry \<times> open_entry list" where
  "astar_heappop h = (let x = arg_min_list entry_key h in (x, remove1 x h))"

type_synonym astar_state =
  "open_entry list \<times> (int \<times> int \<rightharpoonup> pyfloat) \<times> (int \<times> int \<rightharpoonup> pyfloat)
     \<times> (int \<times> int \<rightharpoonup> hexcell) \<times> (int \<times> int) set"

text \<open>The body of the loop over the neighbours of \<open>current\<close>.\<close>

definition astar_visit ::
  "(int \<times> int \<Rightarrow> nat) \<Rightarrow> race \<Rightarrow> hexcell \<Rightarrow> hexcell \<Rightarrow> hexcell \<Rightarrow> astar_state
     \<Rightarrow> error + astar_state" where
  "astar_visit ident rc e current neighbor st =
     (case st of (open_set, g_score, f_score, came_from, closed_set) \<Rightarrow>
        if coords neighbor \<in> closed_set then Inr st
        else
          let movement_cost = get_movement_cost rc (terrain_type neighbor)
          in if movement_cost = PosInf then Inr st
             else
               (case g_score (coords current) of
                  None \<Rightarrow> Inl KeyError
                | Some g_current \<Rightarrow>
                    let tentative_g_score = g_current + movement_cost;
                        not_better = (case g_score (coords neighbor) of
                                        None \<Rightarrow> False
                                      | Some g_old \<Rightarrow> tentative_g_score \<ge> g_old)
                    in if not_better then Inr st
                       else
                         let f_new = tentative_g_score + Num (of_int (HexCell_distance neighbor e))
                         in Inr (heappush open_set (f_new, ident (coords neighbor), neighbor),
                                 g_score(coords neighbor \<mapsto> tentative_g_score),
                                 f_score(coords neighbor \<mapsto> f_new),
                                 came_from(coords neighbor \<mapsto> current),
                                 closed_set)))"

text \<open>\<open>while current in came_from: path.append(current); current = came_from[current]\<close>\<close>

partial_function (option) astar_walk ::
  "(int \<times> int \<rightharpoonup> hexcell) \<Rightarrow> hexcell \<Rightarrow> hexcell list \<Rightarrow> (hexcell \<times> hexcell list) option" where
  "astar_walk came_from current path =
     (case came_from (coords current) of
        None \<Rightarrow> Some (current, path)
      | Some prev \<Rightarrow> astar_walk came_from prev (path @ [current]))"

text \<open>
  The \<open>while open_set\<close> loop. When the end is popped the loop hands over the state in which
  the path is then rebuilt; when the open set is empty no path exists.
\<close>

partial_function (option) astar_loop ::
  "hex_map \<Rightarrow> (int \<times> int \<Rightarrow> nat) \<times> race \<times> hexcell \<Rightarrow> astar_state
     \<Rightarrow> (error + (hexcell \<times> astar_state) option) option" where
  "astar_loop hm env st =
     (case env of (ident, rc, e) \<Rightarrow>
      case st of (open_set, g_score, f_score, came_from, closed_set) \<Rightarrow>
        if open_set = [] then Some (Inr None)
        else
          (case astar_heappop open_set of ((f, i, current), rest) \<Rightarrow>
             if coords current = coords e
             then Some (Inr (Some (current, (rest, g_score, f_score, came_from, closed_set))))
             else
               (case fold_err (astar_visit ident rc e current) (HexMap_get_neighbors hm current)
                       (rest, g_score, f_score, came_from, insert (coords current) closed_set) of
                  Inl err \<Rightarrow> Some (Inl err)
                | Inr st' \<Rightarrow> astar_loop hm env st')))"

text \<open>
  \<open>find_path(hex_map, start, end, race)\<close>. The arguments \<open>start\<close> and \<open>end\<close> are whatever the
  caller passes, for instance \<open>hex_map.start\<close> and \<open>hex_map.end\<close>, which are \<open>None\<close> on a
  map without such a cell. The result is the pair \<open>(path, cost)\<close>.
\<close>

definition find_path ::
  "(int \<times> int \<Rightarrow> nat) \<Rightarrow> hex_map \<Rightarrow> hexcell option \<Rightarrow> hexcell option \<Rightarrow> race
     \<Rightarrow> (error + hexcell list option \<times> pyfloat) option" where
  "find_path ident hm start e rc =
     (case distance_opt start e of
        Inl err \<Rightarrow> Some (Inl err)
      | Inr d \<Rightarrow>
          (case (start, e) of
             (Some start', Some e') \<Rightarrow>
               (case astar_loop hm (ident, rc, e')
                       ([(Num (of_int d), ident (coords start'), start')],
                        [coords start' \<mapsto> 0], [coords start' \<mapsto> Num (of_int d)], Map.empty, {}) of
                  None \<Rightarrow> None
                | Some (Inl err) \<Rightarrow> Some (Inl err)
                | Some (Inr None) \<Rightarrow> Some (Inr (None, PosInf))
                | Some (Inr (Some (current, (open_set, g_score, f_score, came_from, closed_set)))) \<Rightarrow>
                    (case astar_walk came_from current [] of
                       None \<Rightarrow> None
                     | Some (current', path) \<Rightarrow>
                         (case g_score (coords e') of
                            None \<Rightarrow> Some (Inl KeyError)
                          | Some g \<Rightarrow> Some (Inr (Some (rev (path @ [start'])), g)))))
           | _ \<Rightarrow> Some (Inl AttributeError)))"

text \<open>\<open>HexMap.find_path\<close> passes its arguments on.\<close>

definition HexMap_find_path ::
  "(int \<times> int \<Rightarrow> nat) \<Rightarrow> hex_map \<Rightarrow> hexcell option \<Rightarrow> hexcell option \<Rightarrow> race
     \<Rightarrow> (error + hexcell list option \<times> pyfloat) option" where
  "HexMap_find_path ident hm start e rc = find_path ident hm start e rc"

section \<open>Paths and the invariants of breadth-first search\<close>

text \<open>
  A path of a maze is a non-empty list of positions in which every position but the first
  is among the neighbours, as the maze's \<open>get_neighbors\<close> returns them, of the one before.
\<close>

fun is_path :: "('a \<Rightarrow> 'a list) \<Rightarrow> 'a list \<Rightarrow> bool" where
  "is_path nb [] = False"
| "is_path nb [x] = True"
| "is_path nb (x # y # zs) = (y \<in> set (nb x) \<and> is_path nb (y # zs))"

text \<open>
  The dict \<open>visited\<close> is a tree rooted at the start \<open>s\<close>: the start has the predecessor
  \<open>None\<close>, every other visited position has a visited predecessor of which it is a
  neighbour, and \<open>d\<close> counts the steps back to the start.
\<close>

definition bfs_tree :: "('a \<Rightarrow> 'a list) \<Rightarrow> 'a \<Rightarrow> ('a \<Rightarrow> nat) \<Rightarrow> 'a predecessors \<Rightarrow> bool" where
  "bfs_tree nb s d visited =
     (visited s = Some None \<and> d s = 0 \<and>
      (\<forall>v. visited v = Some None \<longrightarrow> v = s) \<and>
      (\<forall>v p. visited v = Some (Some p) \<longrightarrow>
         visited p \<noteq> None \<and> v \<in> set (nb p) \<and> d v = Suc (d p)))"

text \<open>
  The invariant inside the loop over the neighbours of \<open>cur\<close>, which has left the queue,
  and the invariant at the head of the \<open>while\<close> loop: the queue is sorted by \<open>d\<close> and spans
  at most two levels, positions that left the queue have all their neighbours visited, and
  the end position is never taken from the queue before the loop returns.
\<close>

definition bfs_mid ::
  "('a \<Rightarrow> 'a list) \<Rightarrow> 'a \<Rightarrow> 'a \<Rightarrow> ('a \<Rightarrow> nat) \<Rightarrow> 'a
     \<Rightarrow> 'a list \<Rightarrow> 'a predecessors \<Rightarrow> bool" where
  "bfs_mid nb s e d cur queue visited =
     (bfs_tree nb s d visited \<and>
      (\<forall>x\<in>set queue. visited x \<noteq> None) \<and> distinct queue \<and>
      sorted (map d queue) \<and>
      (\<forall>x\<in>set queue. d cur \<le> d x \<and> d x \<le> Suc (d cur)) \<and>
      visited cur \<noteq> None \<and> cur \<notin> set queue \<and>
      (\<forall>v. visited v \<noteq> None \<and> v \<notin> set queue \<longrightarrow> d v \<le> d cur) \<and>
      (\<forall>v. visited v \<noteq> None \<and> v \<notin> set queue \<and> v \<noteq> cur \<longrightarrow>
         (\<forall>n\<in>set (nb v). visited n \<noteq> None \<and> d n \<le> Suc (d v))) \<and>
      (visited e \<noteq> None \<longrightarrow> e \<in> set queue))"

definition bfs_inv ::
  "('a \<Rightarrow> 'a list) \<Rightarrow> 'a \<Rightarrow> 'a \<Rightarrow> ('a \<Rightarrow> nat)
     \<Rightarrow> 'a list \<Rightarrow> 'a predecessors \<Rightarrow> bool" where
  "bfs_inv nb s e d queue visited =
     (bfs_tree nb s d visited \<and>
      (\<forall>x\<in>set queue. visited x \<noteq> None) \<and> distinct queue \<and>
      sorted (map d queue) \<and>
      (\<forall>x\<in>set queue. d x \<le> Suc (d (hd queue))) \<and>
      (\<forall>v. visited v \<noteq> None \<and> v \<notin> set queue \<longrightarrow> (\<forall>x\<in>set queue. d v \<le> d x)) \<and>
      (\<forall>v. visited v \<noteq> None \<and> v \<notin> set queue \<longrightarrow>
         (\<forall>n\<in>set (nb v). visited n \<noteq> None \<and> d n \<le> Suc (d v))) \<and>
      (visited e \<noteq> None \<longrightarrow> e \<in> set queue))"

text \<open>The measure that decreases with every iteration, for the cells \<open>V\<close> of the maze.\<close>

definition bfs_measure :: "'a set \<Rightarrow> 'a list \<Rightarrow> 'a predecessors \<Rightarrow> nat" where
  "bfs_measure V queue visited = length queue + 2 * card (V - dom visited)"

text \<open>
  What a result of the search has to satisfy: \<open>None\<close> only if no path leads from \<open>s\<close> to
  \<open>e\<close>, and otherwise a path from \<open>s\<close> to \<open>e\<close> that no other such path undercuts.
\<close>

definition bfs_result_ok :: "('a \<Rightarrow> 'a list) \<Rightarrow> 'a \<Rightarrow> 'a \<Rightarrow> 'a list option \<Rightarrow> bool" where
  "bfs_result_ok nb s e r =
     (case r of
        None \<Rightarrow> (\<forall>p. is_path nb p \<and> hd p = s \<longrightarrow> last p \<noteq> e)
      | Some path \<Rightarrow>
          is_path nb path \<and> hd path = s \<and> last path = e \<and>
          (\<forall>p. is_path nb p \<and> hd p = s \<and> last p = e \<longrightarrow> length path \<le> length p))"

text \<open>The positions inside the grid.\<close>

definition maze_cells :: "maze \<Rightarrow> position set" where
  "maze_cells m = {0..<height m} \<times> {0..<width m}"

section \<open>Weighted paths and the invariant of Dijkstra's algorithm\<close>

text \<open>
  The cost of a path: the costs of its cells but the first.
\<close>

definition path_cost :: "('a \<Rightarrow> pyfloat) \<Rightarrow> 'a list \<Rightarrow> pyfloat" where
  "path_cost w p = sum_list (map w (tl p))"

text \<open>
  A position is settled when its recorded cost has no entry left in the queue.
\<close>

definition settled :: "(pyfloat \<times> 'a) list \<Rightarrow> ('a \<rightharpoonup> pyfloat) \<Rightarrow> 'a \<Rightarrow> bool" where
  "settled pq csf v = (\<exists>k. csf v = Some k \<and> (k, v) \<notin> set pq)"

text \<open>
  The invariant of the loop of Dijkstra's algorithm. \<open>pend\<close> is the position popped
  last while its neighbours are still being relaxed.
\<close>

definition dij_inv ::
  "('a \<Rightarrow> 'a list) \<Rightarrow> ('a \<Rightarrow> pyfloat) \<Rightarrow> 'a set \<Rightarrow> 'a \<Rightarrow> 'a \<Rightarrow> 'a option
     \<Rightarrow> (pyfloat \<times> 'a) list \<Rightarrow> ('a \<rightharpoonup> pyfloat) \<Rightarrow> 'a predecessors \<Rightarrow> bool" where
  "dij_inv nb w V s e pend pq csf cf =
     (csf s = Some 0 \<and> cf s = Some None \<and>
      (\<forall>c v. (c, v) \<in> set pq \<longrightarrow> (\<exists>k. csf v = Some k \<and> k \<le> c)) \<and>
      distinct pq \<and>
      (\<forall>v k. csf v = Some k \<longrightarrow> (\<exists>r. k = Num r \<and> 0 \<le> r)) \<and>
      (\<forall>v. cf v = Some None \<longrightarrow> v = s) \<and>
      (\<forall>v p. cf v = Some (Some p) \<longrightarrow>
         (\<exists>k kp. csf v = Some k \<and> csf p = Some kp \<and> (kp, p) \<notin> set pq \<and>
                 v \<in> set (nb p) \<and> k = kp + w v)) \<and>
      (\<forall>v. (csf v = None) = (cf v = None)) \<and>
      (\<forall>v k c x. csf v = Some k \<and> (k, v) \<notin> set pq \<and> (c, x) \<in> set pq \<longrightarrow> k \<le> c) \<and>
      (\<forall>v k n. csf v = Some k \<and> (k, v) \<notin> set pq \<and> Some v \<noteq> pend \<and> n \<in> set (nb v) \<longrightarrow>
         (\<exists>kn. csf n = Some kn \<and> kn \<le> k + w n)) \<and>
      (\<forall>k. csf e = Some k \<longrightarrow> (k, e) \<in> set pq) \<and>
      dom csf \<subseteq> V \<and>
      (\<forall>u. pend = Some u \<longrightarrow>
         (\<exists>c. csf u = Some c \<and> (c, u) \<notin> set pq \<and>
              (\<forall>v k. csf v = Some k \<and> (k, v) \<notin> set pq \<longrightarrow> k \<le> c))))"

text \<open>
  The loop ends: entries leave the queue, and a position is settled at most once.
\<close>

definition dij_measure :: "nat \<Rightarrow> 'a set \<Rightarrow> (pyfloat \<times> 'a) list \<Rightarrow> ('a \<rightharpoonup> pyfloat) \<Rightarrow> nat" where
  "dij_measure K V pq csf = length pq + Suc K * card {v \<in> V. \<not> settled pq csf v}"

text \<open>
  What the loop leaves behind: no predecessor for the end when no path leads there,
  and otherwise a chain of predecessors that is a cheapest path.
\<close>

definition dij_result_ok ::
  "('a \<Rightarrow> 'a list) \<Rightarrow> ('a \<Rightarrow> pyfloat) \<Rightarrow> 'a \<Rightarrow> 'a \<Rightarrow> 'a predecessors \<Rightarrow> bool" where
  "dij_result_ok nb w s e cf =
     (case cf e of
        None \<Rightarrow> (\<forall>p. is_path nb p \<and> hd p = s \<longrightarrow> last p \<noteq> e)
      | Some x \<Rightarrow>
          (\<exists>chain. walk_back cf (Some e) [] = Some (Inr chain) \<and>
             is_path nb (rev chain) \<and> hd (rev chain) = s \<and> last (rev chain) = e \<and>
             (\<forall>p. is_path nb p \<and> hd p = s \<and> last p = e \<longrightarrow>
                  path_cost w (rev chain) \<le> path_cost w p)))"

text \<open>
  A maze with two rows, where the cheapest way leads around the swamp.
\<close>

definition ex_maze :: maze where
  "ex_maze = \<lparr>grid = [[StrCell ''1'', StrCell ''S'', StrCell ''F''],
                      [StrCell ''R'', StrCell ''R'', StrCell ''R'']],
              height = 2, width = 3,
              heroes = [(StrCell ''1'', (0, 0))], end_pos = Some (0, 2)\<rparr>"


text \<open>
  A hexagonal map of three cells in a row: start, wall, end.
\<close>

definition wall_map :: hex_map where
  "wall_map = add_cell (add_cell (add_cell HexMap_init 0 0 START) 1 0 WALL) 2 0 END"

section \<open>Identities of cells in the open set of A*\<close>




text \<open>
  Two assignments of identities that order the cells alike.
\<close>

definition same_order :: "('a \<Rightarrow> nat) \<Rightarrow> ('a \<Rightarrow> nat) \<Rightarrow> bool" where
  "same_order ident ident' = (\<forall>a b. (ident a \<le> ident b) = (ident' a \<le> ident' b))"






section \<open>Arrival times of several sources\<close>

text \<open>
  The time \<open>terrain_cost / speed\<close> of a step onto a position, for a speed that is not zero.
\<close>

definition time_to_move :: "maze \<Rightarrow> rat \<Rightarrow> position \<Rightarrow> pyfloat" where
  "time_to_move m speed p =
     (case get_terrain_cost m p of Num a \<Rightarrow> Num (a / speed) | PosInf \<Rightarrow> PosInf)"

text \<open>
  The table of arrival times is a dict of dicts: no position and no source index is listed
  twice, the indices are those of the \<open>n\<close> sources, and the times are finite.
\<close>

definition times_ok :: "nat \<Rightarrow> arrival_times \<Rightarrow> bool" where
  "times_ok n distances =
     (distinct (map fst distances) \<and>
      (\<forall>(pos, tms) \<in> set distances.
         distinct (map fst tms) \<and> (\<forall>(i, t) \<in> set tms. i < n \<and> t \<noteq> PosInf)))"

text \<open>
  A position has an arrival time from every one of the \<open>n\<close> sources.
\<close>

definition has_all_entries :: "nat \<Rightarrow> (nat \<times> pyfloat) list \<Rightarrow> bool" where
  "has_all_entries n tms = (\<forall>i<n. map_of tms i \<noteq> None)"

text \<open>
  \<open>max(times.values())\<close>
\<close>

definition max_arrival :: "(nat \<times> pyfloat) list \<Rightarrow> pyfloat" where
  "max_arrival tms = Max (set (map snd tms))"



section \<open>Properties of the terrain table and of the lookups\<close>

lemma TERRAIN_TYPES_F:
  "TERRAIN_TYPES (StrCell ''F'') =
     Some \<lparr>info_name = ''Finish'', info_cost = Num 1, info_passable = True,
           info_color = ''lightgreen''\<rparr>"
  by (simp add: TERRAIN_TYPES_def dict_literal_def TERRAIN_ITEMS_def)

text \<open>
  Claim C10. The terrain table binds the key \<open>'F'\<close> twice; the dict keeps the later
  entry Finish. Hence every cell of the grid whose token is \<open>'F'\<close> costs \<open>1.0\<close>, and
  never the cost \<open>3.0\<close> written for Forest.
\<close>

theorem finish_replaces_forest:
  "length (filter (\<lambda>kv. fst kv = StrCell ''F'') TERRAIN_ITEMS) = 2 \<and>
   map_option info_name (TERRAIN_TYPES (StrCell ''F'')) = Some ''Finish'' \<and>
   (0 \<le> row \<and> row < height m \<and> 0 \<le> col \<and> col < width m \<and>
      grid m ! nat row ! nat col = StrCell ''F''
    \<longrightarrow> get_terrain_cost m (row, col) = Num 1 \<and> get_terrain_cost m (row, col) \<noteq> Num 3)"
  by (simp add: TERRAIN_TYPES_F get_terrain_cost_def get_terrain_info_def get_terrain_type_def
      is_valid_position_def TERRAIN_ITEMS_def)

theorem finish_replaces_forest_witness:
  "get_terrain_cost
     \<lparr>grid = [[StrCell ''1'', StrCell ''F'']], height = 1, width = 2,
      heroes = [(StrCell ''1'', (0, 0))], end_pos = Some (0, 1)\<rparr> (0, 1) = Num 1"
  using finish_replaces_forest
    [of 0 "\<lparr>grid = [[StrCell ''1'', StrCell ''F'']], height = 1, width = 2,
            heroes = [(StrCell ''1'', (0, 0))], end_pos = Some (0, 1)\<rparr>" 1]
  by simp

text \<open>
  Claim C7, as stated, fails: a token that the terrain table does not list, here \<open>'X'\<close>,
  gets the default entry Unknown, which is impassable and has infinite cost.
\<close>

theorem unknown_token_counterexample:
  "TERRAIN_TYPES (StrCell ''X'') = None \<and>
   \<not> is_passable
       \<lparr>grid = [[StrCell ''1'', StrCell ''X'']], height = 1, width = 2,
        heroes = [(StrCell ''1'', (0, 0))], end_pos = None\<rparr> (0, 1) \<and>
   get_terrain_cost
       \<lparr>grid = [[StrCell ''1'', StrCell ''X'']], height = 1, width = 2,
        heroes = [(StrCell ''1'', (0, 0))], end_pos = None\<rparr> (0, 1) = PosInf"
  by (simp add: TERRAIN_TYPES_def dict_literal_def TERRAIN_ITEMS_def is_passable_def
      get_terrain_cost_def get_terrain_info_def get_terrain_type_def is_valid_position_def
      unknown_terrain_def)

text \<open>
  Claim C7, amended. For every cell of the grid whose token the terrain table does not
  list, the lookup does not fail, the cost is infinite and the cell is not passable, so the
  cell is treated as impassable. The entry returned is the default Unknown, except for the
  int token \<open>1\<close>: \<open>is_valid_position\<close> takes it for a wall, \<open>get_terrain_type\<close> then returns
  \<open>' '\<close>, and the entry is Empty, impassable as well. The modifier of an agent class for a
  kind that its table does not list is \<open>1.0\<close>.
\<close>

theorem unknown_token_default:
  "(0 \<le> row \<and> row < height m \<and> 0 \<le> col \<and> col < width m \<and>
      TERRAIN_TYPES (grid m ! nat row ! nat col) = None
    \<longrightarrow> get_terrain_info m (row, col) =
          (if grid m ! nat row ! nat col = IntCell 1
           then \<lparr>info_name = ''Empty'', info_cost = PosInf, info_passable = False,
                 info_color = ''white''\<rparr>
           else unknown_terrain) \<and>
        get_terrain_cost m (row, col) = PosInf \<and> \<not> is_passable m (row, col)) \<and>
   (terrain_modifiers rc t = None \<longrightarrow> get_terrain_modifier rc t = Num 1)"
proof -
  have e: "TERRAIN_TYPES (StrCell '' '') =
     Some \<lparr>info_name = ''Empty'', info_cost = PosInf, info_passable = False, info_color = ''white''\<rparr>"
    by (simp add: TERRAIN_TYPES_def dict_literal_def TERRAIN_ITEMS_def)
  show ?thesis
    by (simp add: e is_passable_def get_terrain_cost_def get_terrain_info_def get_terrain_type_def
      is_valid_position_def unknown_terrain_def get_terrain_modifier_def)
qed

theorem unknown_token_default_witness:
  "get_terrain_info
     \<lparr>grid = [[StrCell ''1'', StrCell ''X'']], height = 1, width = 2,
      heroes = [(StrCell ''1'', (0, 0))], end_pos = None\<rparr> (0, 1) = unknown_terrain \<and>
   get_terrain_info
     \<lparr>grid = [[StrCell ''1'', IntCell 1]], height = 1, width = 2,
      heroes = [(StrCell ''1'', (0, 0))], end_pos = None\<rparr> (0, 1)
     = \<lparr>info_name = ''Empty'', info_cost = PosInf, info_passable = False, info_color = ''white''\<rparr> \<and>
   \<not> is_passable
     \<lparr>grid = [[StrCell ''1'', IntCell 1]], height = 1, width = 2,
      heroes = [(StrCell ''1'', (0, 0))], end_pos = None\<rparr> (0, 1) \<and>
   get_terrain_modifier \<lparr>terrain_modifiers = Map.empty\<rparr> GRASS = Num 1"
  using unknown_token_default
    [of 0 "\<lparr>grid = [[StrCell ''1'', StrCell ''X'']], height = 1, width = 2,
            heroes = [(StrCell ''1'', (0, 0))], end_pos = None\<rparr>" 1
        "\<lparr>terrain_modifiers = Map.empty\<rparr>" GRASS]
    unknown_token_default
    [of 0 "\<lparr>grid = [[StrCell ''1'', IntCell 1]], height = 1, width = 2,
            heroes = [(StrCell ''1'', (0, 0))], end_pos = None\<rparr>" 1
        "\<lparr>terrain_modifiers = Map.empty\<rparr>" GRASS]
  by (simp add: TERRAIN_TYPES_def dict_literal_def TERRAIN_ITEMS_def)

section \<open>Properties of the hexagonal cost lookups\<close>

text \<open>
  Claim C9. The class \<open>HexTerrainType\<close> binds neither \<open>get_cost\<close> nor \<open>is_passable\<close>.
  So \<open>HexMaze.get_terrain_cost\<close>, \<open>Race.get_modified_cost\<close> and \<open>Race.is_passable\<close> raise
  AttributeError for every maze, position, race and terrain kind, whatever the missing
  attributes would have computed: the base cost lookup returns a cost for no kind.
\<close>

theorem hex_cost_lookup_raises:
  "\<not> HexTerrainType_hasattr ''get_cost'' \<and> \<not> HexTerrainType_hasattr ''is_passable'' \<and>
   HexMaze_get_terrain_cost gc hz position = Inl AttributeError \<and>
   get_modified_cost gc' rc t = Inl AttributeError \<and>
   Race_is_passable pa rc t = Inl AttributeError"
  by (simp add: HexMaze_get_terrain_cost_def get_modified_cost_def Race_is_passable_def
      HexTerrainType_hasattr_def HexTerrainType_names_def)

lemma wall_map_nb:
  "HexMap_get_neighbors wall_map (HexCell 0 0 START) = [HexCell 1 0 WALL]"
  "HexMap_get_neighbors wall_map (HexCell 1 0 WALL) = [HexCell 2 0 END, HexCell 0 0 START]"
  by (simp_all add: HexMap_get_neighbors_def HexCell_get_neighbors_def wall_map_def add_cell_def
      HexMap_init_def Let_def List.map_filter_def)

text \<open>
  Claim C4, as stated, fails. The terrain kinds of the hexagonal map have no base cost in
  the source, and the product \<open>get_modified_cost\<close> raises for every kind. What A* charges
  the base race for a wall cell is \<open>1.0\<close>, which is a product of a base cost and the
  modifier only for the finite base cost \<open>1.0\<close>, although the comments of
  \<open>Race.is_passable\<close> call walls impassable for all races: A* walks through the wall
  between start and end at the total cost \<open>2.0\<close>.
\<close>

theorem wall_cost_counterexample:
  "get_movement_cost Race WALL = Num 1 \<and>
   (\<forall>b. (fmul b (get_terrain_modifier Race WALL) = get_movement_cost Race WALL) = (b = Num 1)) \<and>
   (\<forall>gc. get_modified_cost gc Race WALL = Inl AttributeError) \<and>
   find_path (\<lambda>c. 0) wall_map (Some (HexCell 0 0 START)) (Some (HexCell 2 0 END)) Race
     = Some (Inr (Some [HexCell 0 0 START, HexCell 1 0 WALL, HexCell 2 0 END], Num 2))"
proof (intro conjI allI)
  show "get_movement_cost Race WALL = Num 1" by (simp add: get_movement_cost_def Race_def)
  show "(fmul b (get_terrain_modifier Race WALL) = get_movement_cost Race WALL) = (b = Num 1)" for b
    by (cases b) (simp_all add: get_movement_cost_def get_terrain_modifier_def Race_def)
  show "get_modified_cost gc Race WALL = Inl AttributeError" for gc
    by (simp add: get_modified_cost_def HexTerrainType_hasattr_def HexTerrainType_names_def)
  show "find_path (\<lambda>c. 0) wall_map (Some (HexCell 0 0 START)) (Some (HexCell 2 0 END)) Race
     = Some (Inr (Some [HexCell 0 0 START, HexCell 1 0 WALL, HexCell 2 0 END], Num 2))"
    by (simp add: find_path_def distance_opt_def HexCell_distance_def cell_s_def coords_def
      astar_loop.simps astar_heappop_def entry_key_def Let_def wall_map_nb astar_visit_def
      get_movement_cost_def Race_def heappush_def astar_walk.simps zero_pyfloat_def)
qed

text \<open>
  Claim C4, amended. For every terrain kind and every agent class, the cost that A* charges
  for entering a cell of that kind is the modifier of the class for the kind alone (\<open>1.0\<close>
  when the class lists none); no base cost is multiplied in. For a current cell that has a
  score and a neighbour that is not closed and whose modifier is finite: when the neighbour
  has a score already that is at most the score of the current cell plus the modifier, the
  state stays as it is; otherwise, scored before or not, its new score is the score of the
  current cell plus the modifier, and the entry pushed has that score plus the distance to
  the end as priority. A neighbour that is closed or whose modifier is infinite is skipped.
\<close>

theorem astar_charges_modifier:
  "get_movement_cost rc t = get_terrain_modifier rc t \<and>
   (coords nb \<notin> closed_set \<and> g_score (coords cur) = Some g_current \<and>
      get_terrain_modifier rc (terrain_type nb) \<noteq> PosInf
    \<longrightarrow> (\<exists>st'. astar_visit ident rc e cur nb (open_set, g_score, f_score, came_from, closed_set)
                  = Inr st' \<and>
              (if \<exists>g_old. g_score (coords nb) = Some g_old \<and>
                     g_old \<le> g_current + get_terrain_modifier rc (terrain_type nb)
               then st' = (open_set, g_score, f_score, came_from, closed_set)
               else fst (snd st') (coords nb)
                      = Some (g_current + get_terrain_modifier rc (terrain_type nb)) \<and>
                    fst st' = open_set @
                      [(g_current + get_terrain_modifier rc (terrain_type nb)
                          + Num (of_int (HexCell_distance nb e)), ident (coords nb), nb)]))) \<and>
   (get_terrain_modifier rc (terrain_type nb) = PosInf \<or> coords nb \<in> snd (snd (snd (snd st)))
    \<longrightarrow> astar_visit ident rc e cur nb st = Inr st)"
  by (cases st) (auto simp: get_movement_cost_def get_terrain_modifier_def astar_visit_def Let_def
      heappush_def split: option.splits)

theorem astar_charges_modifier_witness:
  "get_movement_cost Race WALL = Num 1 \<and>
   (\<exists>st'. astar_visit (\<lambda>c. 0) Race (HexCell 0 2 END) (HexCell 0 0 START) (HexCell 0 1 WALL)
             ([], [(0, 0) \<mapsto> 0], Map.empty, Map.empty, {(0, 0)}) = Inr st' \<and>
          fst (snd st') (0, 1) = Some (Num 1)) \<and>
   (\<exists>st'. astar_visit (\<lambda>c. 0) Race (HexCell 0 2 END) (HexCell 0 0 START) (HexCell 0 1 GRASS)
             ([], [(0, 0) \<mapsto> 0, (0, 1) \<mapsto> Num 5], Map.empty, Map.empty, {(0, 0)}) = Inr st' \<and>
          fst (snd st') (0, 1) = Some (Num 1)) \<and>
   astar_visit (\<lambda>c. 0) Race (HexCell 0 2 END) (HexCell 0 0 START) (HexCell 0 1 GRASS)
       ([], [(0, 0) \<mapsto> 0, (0, 1) \<mapsto> Num 1], Map.empty, Map.empty, {(0, 0)})
     = Inr ([], [(0, 0) \<mapsto> 0, (0, 1) \<mapsto> Num 1], Map.empty, Map.empty, {(0, 0)}) \<and>
   astar_visit (\<lambda>c. 0) \<lparr>terrain_modifiers = [WATER \<mapsto> PosInf]\<rparr> (HexCell 0 2 END)
       (HexCell 0 0 START) (HexCell 0 1 WATER) ([], [(0, 0) \<mapsto> 0], Map.empty, Map.empty, {})
     = Inr ([], [(0, 0) \<mapsto> 0], Map.empty, Map.empty, {})"
proof -
  let ?e = "HexCell 0 2 END" and ?s = "HexCell 0 0 START"
  note a = astar_charges_modifier
    [where rc = Race and t = WALL and nb = "HexCell 0 1 WALL" and closed_set = "{(0, 0)}"
       and g_score = "[(0, 0) \<mapsto> 0]" and cur = ?s and g_current = 0
       and ident = "\<lambda>c. 0" and e = ?e and open_set = "[]"
       and f_score = Map.empty and came_from = Map.empty
       and st = "([], [(0, 0) \<mapsto> 0], Map.empty, Map.empty, {})"]
  note b = astar_charges_modifier
    [where rc = Race and t = WALL and nb = "HexCell 0 1 GRASS" and closed_set = "{(0, 0)}"
       and g_score = "[(0, 0) \<mapsto> 0, (0, 1) \<mapsto> Num 5]" and cur = ?s and g_current = 0
       and ident = "\<lambda>c. 0" and e = ?e and open_set = "[]"
       and f_score = Map.empty and came_from = Map.empty
       and st = "([], [(0, 0) \<mapsto> 0], Map.empty, Map.empty, {})"]
  note c = astar_charges_modifier
    [where rc = Race and t = WALL and nb = "HexCell 0 1 GRASS" and closed_set = "{(0, 0)}"
       and g_score = "[(0, 0) \<mapsto> 0, (0, 1) \<mapsto> Num 1]" and cur = ?s and g_current = 0
       and ident = "\<lambda>c. 0" and e = ?e and open_set = "[]"
       and f_score = Map.empty and came_from = Map.empty
       and st = "([], [(0, 0) \<mapsto> 0], Map.empty, Map.empty, {})"]
  note d = astar_charges_modifier
    [where rc = "\<lparr>terrain_modifiers = [WATER \<mapsto> PosInf]\<rparr>" and t = WATER
       and nb = "HexCell 0 1 WATER" and closed_set = "{}"
       and g_score = "[(0, 0) \<mapsto> 0]" and cur = ?s and g_current = 0
       and ident = "\<lambda>c. 0" and e = ?e and open_set = "[]"
       and f_score = Map.empty and came_from = Map.empty
       and st = "([], [(0, 0) \<mapsto> 0], Map.empty, Map.empty, {})"]
  have m: "get_terrain_modifier Race t = Num 1" for t
    by (simp add: get_terrain_modifier_def Race_def)
  have 1: "get_movement_cost Race WALL = Num 1" using a m by simp
  have 2: "\<exists>st'. astar_visit (\<lambda>c. 0) Race ?e ?s (HexCell 0 1 WALL)
             ([], [(0, 0) \<mapsto> 0], Map.empty, Map.empty, {(0, 0)}) = Inr st' \<and>
          fst (snd st') (0, 1) = Some (Num 1)"
    using a by (auto simp: m coords_def zero_pyfloat_def)
  have 3: "\<exists>st'. astar_visit (\<lambda>c. 0) Race ?e ?s (HexCell 0 1 GRASS)
             ([], [(0, 0) \<mapsto> 0, (0, 1) \<mapsto> Num 5], Map.empty, Map.empty, {(0, 0)}) = Inr st' \<and>
          fst (snd st') (0, 1) = Some (Num 1)"
    using b by (auto simp: m coords_def zero_pyfloat_def)
  have 4: "astar_visit (\<lambda>c. 0) Race ?e ?s (HexCell 0 1 GRASS)
       ([], [(0, 0) \<mapsto> 0, (0, 1) \<mapsto> Num 1], Map.empty, Map.empty, {(0, 0)})
     = Inr ([], [(0, 0) \<mapsto> 0, (0, 1) \<mapsto> Num 1], Map.empty, Map.empty, {(0, 0)})"
    using c by (auto simp: m coords_def zero_pyfloat_def)
  have 5: "astar_visit (\<lambda>c. 0) \<lparr>terrain_modifiers = [WATER \<mapsto> PosInf]\<rparr> ?e ?s
       (HexCell 0 1 WATER) ([], [(0, 0) \<mapsto> 0], Map.empty, Map.empty, {})
     = Inr ([], [(0, 0) \<mapsto> 0], Map.empty, Map.empty, {})"
    using d by (simp add: get_terrain_modifier_def)
  from 1 2 3 4 5 show ?thesis by blast
qed

section \<open>Properties of the searches on a map without start or end\<close>

text \<open>
  Claim C5, as stated, fails for A*: on a map with a start cell and no end cell,
  \<open>find_path\<close> called with the map's start and end raises AttributeError.
\<close>

theorem astar_absent_end_counterexample:
  "map_end (add_cell HexMap_init 0 0 START) = None \<and>
   find_path (\<lambda>c. 0) (add_cell HexMap_init 0 0 START)
     (map_start (add_cell HexMap_init 0 0 START)) (map_end (add_cell HexMap_init 0 0 START)) Race
     = Some (Inl AttributeError)"
  by (simp add: add_cell_def HexMap_init_def find_path_def distance_opt_def Let_def)

text \<open>
  Claim C5, amended. On a maze without a declared start or without a declared end, BFS
  and Dijkstra return \<open>None\<close> at once and raise nothing. A*, whose start and end are
  arguments, raises AttributeError when either is \<open>None\<close>.
\<close>

theorem absent_start_or_end:
  "(get_start_position m = None \<or> get_end_position m = None \<longrightarrow>
      PathFinder_bfs m = Some (Inr None) \<and> dijkstra m = Some (Inr None)) \<and>
   (start = None \<or> e = None \<longrightarrow> find_path ident hm start e rc = Some (Inl AttributeError))"
  by (auto simp: PathFinder_bfs_def bfs_def dijkstra_def find_path_def distance_opt_def
      split: option.splits)

theorem absent_start_or_end_witness:
  "PathFinder_bfs \<lparr>grid = [[StrCell ''1'', IntCell 0]], height = 1, width = 2,
                   heroes = [(StrCell ''1'', (0, 0))], end_pos = None\<rparr> = Some (Inr None) \<and>
   dijkstra \<lparr>grid = [[StrCell ''1'', IntCell 0]], height = 1, width = 2,
             heroes = [(StrCell ''1'', (0, 0))], end_pos = None\<rparr> = Some (Inr None) \<and>
   find_path (\<lambda>c. 0) HexMap_init (Some (HexCell 0 0 START)) None Race
     = Some (Inl AttributeError)"
  using absent_start_or_end
    [of "\<lparr>grid = [[StrCell ''1'', IntCell 0]], height = 1, width = 2,
          heroes = [(StrCell ''1'', (0, 0))], end_pos = None\<rparr>"
        "Some (HexCell 0 0 START)" None "\<lambda>c. 0" HexMap_init Race]
  by (simp add: get_end_position_def)

section \<open>Properties of the meeting point with fewer than two sources\<close>

text \<open>
  Claim C6, as stated, fails for \<open>find_optimal_gathering_point\<close>: with the single source
  \<open>(0, 0)\<close> on a one-cell grass grid it returns the coordinate \<open>(0, 0)\<close>.
\<close>

theorem single_source_counterexample:
  "find_optimal_gathering_point
     \<lparr>grid = [[StrCell ''G'']], height = 1, width = 1, heroes = [], end_pos = None\<rparr>
     [(0, 0)] None = Some (Inr (Some (0, 0)))"
  by (simp add: find_optimal_gathering_point_def compute_distances_with_costs_def
      is_valid_position_def source_loop.simps heappop_def TerrainMaze_get_neighbors_def
      is_passable_def record_time_def consider_point_def zero_pyfloat_def)

section \<open>Breadth-first search returns a shortest path\<close>

lemma is_path_snoc:
  "is_path nb (p @ [y]) = (p = [] \<or> (is_path nb p \<and> y \<in> set (nb (last p))))"
  by (induction nb p rule: is_path.induct) auto

lemma bfs_inv_init: "bfs_inv nb s e (\<lambda>v. 0) [s] [s \<mapsto> None]"
  by (simp add: bfs_inv_def bfs_tree_def)

lemma bfs_inv_pop:
  assumes "bfs_inv nb s e d (cur # rest) visited" "cur \<noteq> e"
  shows "bfs_mid nb s e d cur rest visited"
  unfolding bfs_mid_def
proof (intro conjI)
  note inv = assms(1)[unfolded bfs_inv_def]
  show "bfs_tree nb s d visited" using inv by simp
  show "\<forall>x\<in>set rest. visited x \<noteq> None" using inv by simp
  show "distinct rest" using inv by simp
  show "sorted (map d rest)" using inv by simp
  show "\<forall>x\<in>set rest. d cur \<le> d x \<and> d x \<le> Suc (d cur)" using inv by simp
  show "visited cur \<noteq> None" using inv by simp
  show "cur \<notin> set rest" using inv by simp
  show "\<forall>v. visited v \<noteq> None \<and> v \<notin> set rest \<longrightarrow> d v \<le> d cur"
  proof (intro allI impI)
    fix v assume v: "visited v \<noteq> None \<and> v \<notin> set rest"
    show "d v \<le> d cur"
    proof (cases "v = cur")
      case False
      with v have "v \<notin> set (cur # rest)" by simp
      with inv v show ?thesis by (meson list.set_intros(1))
    qed simp
  qed
  show "\<forall>v. visited v \<noteq> None \<and> v \<notin> set rest \<and> v \<noteq> cur \<longrightarrow>
         (\<forall>n\<in>set (nb v). visited n \<noteq> None \<and> d n \<le> Suc (d v))"
  proof (intro allI impI)
    fix v assume v: "visited v \<noteq> None \<and> v \<notin> set rest \<and> v \<noteq> cur"
    then have "v \<notin> set (cur # rest)" by simp
    with inv v show "\<forall>n\<in>set (nb v). visited n \<noteq> None \<and> d n \<le> Suc (d v)" by blast
  qed
  show "visited e \<noteq> None \<longrightarrow> e \<in> set rest" using inv assms(2) by auto
qed

lemma bfs_treeD:
  assumes "bfs_tree nb s d visited"
  shows "visited s = Some None" "d s = 0"
    "\<And>v. visited v = Some None \<Longrightarrow> v = s"
    "\<And>v p. visited v = Some (Some p) \<Longrightarrow> visited p \<noteq> None"
    "\<And>v p. visited v = Some (Some p) \<Longrightarrow> v \<in> set (nb p)"
    "\<And>v p. visited v = Some (Some p) \<Longrightarrow> d v = Suc (d p)"
  using assms unfolding bfs_tree_def by blast+

lemma bfs_midD:
  assumes "bfs_mid nb s e d cur queue visited"
  shows "bfs_tree nb s d visited"
    "\<And>x. x \<in> set queue \<Longrightarrow> visited x \<noteq> None"
    "distinct queue" "sorted (map d queue)"
    "\<And>x. x \<in> set queue \<Longrightarrow> d cur \<le> d x"
    "\<And>x. x \<in> set queue \<Longrightarrow> d x \<le> Suc (d cur)"
    "visited cur \<noteq> None" "cur \<notin> set queue"
    "\<And>v. visited v \<noteq> None \<Longrightarrow> v \<notin> set queue \<Longrightarrow> d v \<le> d cur"
    "\<And>v n. visited v \<noteq> None \<Longrightarrow> v \<notin> set queue \<Longrightarrow> v \<noteq> cur \<Longrightarrow> n \<in> set (nb v)
        \<Longrightarrow> visited n \<noteq> None \<and> d n \<le> Suc (d v)"
    "visited e \<noteq> None \<Longrightarrow> e \<in> set queue"
  using assms unfolding bfs_mid_def by blast+

lemma bfs_visit_seen:
  assumes mid: "bfs_mid nb s e d cur queue visited" and seen: "visited n \<noteq> None"
  shows "bfs_visit cur n (queue, visited) = (queue, visited)" "d n \<le> Suc (d cur)"
proof -
  show "bfs_visit cur n (queue, visited) = (queue, visited)"
    using seen by (simp add: bfs_visit_def)
  show "d n \<le> Suc (d cur)"
  proof (cases "n \<in> set queue")
    case True then show ?thesis by (rule bfs_midD(6)[OF mid])
  next
    case False
    have "d n \<le> d cur" by (rule bfs_midD(9)[OF mid seen False])
    then show ?thesis by simp
  qed
qed

lemma bfs_visit_new:
  assumes mid: "bfs_mid nb s e d cur queue visited" and n: "n \<in> set (nb cur)"
    and new: "visited n = None"
  shows "bfs_mid nb s e (d(n := Suc (d cur))) cur (queue @ [n]) (visited(n \<mapsto> Some cur))"
proof -
  let ?d = "d(n := Suc (d cur))"
  let ?v = "visited(n \<mapsto> Some cur)"
  note t = bfs_midD(1)[OF mid]
  have nq: "n \<notin> set queue" using bfs_midD(2)[OF mid] new by blast
  have ncur: "n \<noteq> cur" using bfs_midD(7)[OF mid] new by blast
  have ns: "n \<noteq> s" using bfs_treeD(1)[OF t] new by auto
  have dsame: "?d v = d v" if "visited v \<noteq> None" for v
    using that new by auto
  have tree: "bfs_tree nb s ?d ?v"
    unfolding bfs_tree_def
  proof (intro conjI allI impI)
    show "?v s = Some None" using bfs_treeD(1)[OF t] ns by simp
    show "?d s = 0" using bfs_treeD(2)[OF t] ns by simp
    show "v = s" if "?v v = Some None" for v
    proof -
      from that have "v \<noteq> n" by auto
      with that have "visited v = Some None" by simp
      then show ?thesis by (rule bfs_treeD(3)[OF t])
    qed
    fix v p assume vp: "?v v = Some (Some p)"
    show "?v p \<noteq> None"
    proof (cases "v = n")
      case True with vp have "p = cur" by simp
      with bfs_midD(7)[OF mid] show ?thesis by simp
    next
      case False
      with vp have "visited v = Some (Some p)" by simp
      then have "visited p \<noteq> None" by (rule bfs_treeD(4)[OF t])
      then show ?thesis by simp
    qed
    show "v \<in> set (nb p)"
    proof (cases "v = n")
      case True with vp have "p = cur" by simp
      with n True show ?thesis by simp
    next
      case False
      with vp have "visited v = Some (Some p)" by simp
      then show ?thesis by (rule bfs_treeD(5)[OF t])
    qed
    show "?d v = Suc (?d p)"
    proof (cases "v = n")
      case True with vp have "p = cur" by simp
      with True ncur show ?thesis by simp
    next
      case False
      with vp have vv: "visited v = Some (Some p)" by simp
      have "visited p \<noteq> None" by (rule bfs_treeD(4)[OF t vv])
      moreover have "d v = Suc (d p)" by (rule bfs_treeD(6)[OF t vv])
      ultimately show ?thesis using False dsame[of p] by simp
    qed
  qed
  have same: "map ?d queue = map d queue"
    using nq by (induction queue) auto
  show ?thesis
    unfolding bfs_mid_def
  proof (intro conjI)
    show "bfs_tree nb s ?d ?v" by (rule tree)
    show "\<forall>x\<in>set (queue @ [n]). ?v x \<noteq> None"
      using bfs_midD(2)[OF mid] by simp
    show "distinct (queue @ [n])" using bfs_midD(3)[OF mid] nq by simp
    show "sorted (map ?d (queue @ [n]))"
    proof -
      have "sorted (map ?d queue)" using bfs_midD(4)[OF mid] by (simp only: same)
      moreover have "\<forall>x\<in>set queue. ?d x \<le> Suc (d cur)"
        using bfs_midD(6)[OF mid] nq by auto
      ultimately show ?thesis by (auto simp: sorted_append)
    qed
    show "\<forall>x\<in>set (queue @ [n]). ?d cur \<le> ?d x \<and> ?d x \<le> Suc (?d cur)"
      using bfs_midD(5)[OF mid] bfs_midD(6)[OF mid] ncur by simp
    show "?v cur \<noteq> None" using bfs_midD(7)[OF mid] by simp
    show "cur \<notin> set (queue @ [n])" using bfs_midD(8)[OF mid] ncur by simp
    show "\<forall>v. ?v v \<noteq> None \<and> v \<notin> set (queue @ [n]) \<longrightarrow> ?d v \<le> ?d cur"
    proof (intro allI impI)
      fix v assume "?v v \<noteq> None \<and> v \<notin> set (queue @ [n])"
      then have v: "visited v \<noteq> None" "v \<notin> set queue" "v \<noteq> n" by auto
      have "d v \<le> d cur" by (rule bfs_midD(9)[OF mid v(1,2)])
      with v(3) ncur show "?d v \<le> ?d cur" by simp
    qed
    show "\<forall>v. ?v v \<noteq> None \<and> v \<notin> set (queue @ [n]) \<and> v \<noteq> cur \<longrightarrow>
         (\<forall>k\<in>set (nb v). ?v k \<noteq> None \<and> ?d k \<le> Suc (?d v))"
    proof (intro allI impI ballI)
      fix v k assume a: "?v v \<noteq> None \<and> v \<notin> set (queue @ [n]) \<and> v \<noteq> cur" and k: "k \<in> set (nb v)"
      then have v: "visited v \<noteq> None" "v \<notin> set queue" "v \<noteq> cur" "v \<noteq> n" by auto
      have kk: "visited k \<noteq> None \<and> d k \<le> Suc (d v)"
        by (rule bfs_midD(10)[OF mid v(1,2,3) k])
      then have "k \<noteq> n" using new by auto
      with kk v(4) show "?v k \<noteq> None \<and> ?d k \<le> Suc (?d v)" by simp
    qed
    show "?v e \<noteq> None \<longrightarrow> e \<in> set (queue @ [n])"
      using bfs_midD(11)[OF mid] by simp
  qed
qed

lemma bfs_measure_new:
  assumes "finite V" "n \<in> V" "visited n = None"
  shows "bfs_measure V (queue @ [n]) (visited(n \<mapsto> Some cur)) < bfs_measure V queue visited"
proof -
  have "V - dom (visited(n \<mapsto> Some cur)) = (V - dom visited) - {n}" by auto
  moreover have "n \<in> V - dom visited" using assms by (auto simp: dom_def)
  moreover have "finite (V - dom visited)" using assms by simp
  ultimately have "card (V - dom (visited(n \<mapsto> Some cur))) < card (V - dom visited)"
    by (metis card_Diff1_less)
  then show ?thesis by (simp add: bfs_measure_def)
qed

lemma bfs_fold:
  assumes "bfs_mid nb s e d cur queue visited" "set ns \<subseteq> set (nb cur)"
    "finite V" "set (nb cur) \<subseteq> V"
  shows "\<exists>d' queue' visited'.
           fold (bfs_visit cur) ns (queue, visited) = (queue', visited') \<and>
           bfs_mid nb s e d' cur queue' visited' \<and>
           (\<forall>n\<in>set ns. visited' n \<noteq> None \<and> d' n \<le> Suc (d' cur)) \<and>
           (\<forall>v. visited v \<noteq> None \<longrightarrow> visited' v \<noteq> None \<and> d' v = d v) \<and>
           bfs_measure V queue' visited' \<le> bfs_measure V queue visited"
  using assms(1,2)
proof (induction ns arbitrary: d queue visited)
  case Nil
  then show ?case by auto
next
  case (Cons n ns)
  note mid = Cons.prems(1)
  have n: "n \<in> set (nb cur)" and ns: "set ns \<subseteq> set (nb cur)" using Cons.prems(2) by auto
  have cur: "visited cur \<noteq> None" by (rule bfs_midD(7)[OF mid])
  show ?case
  proof (cases "visited n = None")
    case False
    note seen = bfs_visit_seen[OF mid False]
    from Cons.IH[OF mid ns] obtain d' queue' visited' where
      r: "fold (bfs_visit cur) ns (queue, visited) = (queue', visited')"
         "bfs_mid nb s e d' cur queue' visited'"
         "\<forall>n\<in>set ns. visited' n \<noteq> None \<and> d' n \<le> Suc (d' cur)"
         "\<forall>v. visited v \<noteq> None \<longrightarrow> visited' v \<noteq> None \<and> d' v = d v"
         "bfs_measure V queue' visited' \<le> bfs_measure V queue visited"
      by blast
    have "visited' n \<noteq> None \<and> d' n \<le> Suc (d' cur)"
      using r(4) False cur seen(2) by simp
    with r seen(1) show ?thesis by auto
  next
    case True
    let ?d = "d(n := Suc (d cur))"
    let ?q = "queue @ [n]"
    let ?v = "visited(n \<mapsto> Some cur)"
    have st: "bfs_visit cur n (queue, visited) = (?q, ?v)"
      using True by (simp add: bfs_visit_def)
    have mid1: "bfs_mid nb s e ?d cur ?q ?v" by (rule bfs_visit_new[OF mid n True])
    have ncur: "n \<noteq> cur" using cur True by auto
    from Cons.IH[OF mid1 ns] obtain d' queue' visited' where
      r: "fold (bfs_visit cur) ns (?q, ?v) = (queue', visited')"
         "bfs_mid nb s e d' cur queue' visited'"
         "\<forall>n\<in>set ns. visited' n \<noteq> None \<and> d' n \<le> Suc (d' cur)"
         "\<forall>v. ?v v \<noteq> None \<longrightarrow> visited' v \<noteq> None \<and> d' v = ?d v"
         "bfs_measure V queue' visited' \<le> bfs_measure V ?q ?v"
      by blast
    have a: "visited' n \<noteq> None \<and> d' n \<le> Suc (d' cur)"
    proof -
      have "visited' n \<noteq> None \<and> d' n = ?d n" using r(4) by simp
      moreover have "d' cur = ?d cur" using r(4) cur by simp
      ultimately show ?thesis using ncur by simp
    qed
    have b: "\<forall>v. visited v \<noteq> None \<longrightarrow> visited' v \<noteq> None \<and> d' v = d v"
    proof (intro allI impI)
      fix v assume v: "visited v \<noteq> None"
      then have "v \<noteq> n" using True by auto
      moreover have "visited' v \<noteq> None \<and> d' v = ?d v" using r(4) v by simp
      ultimately show "visited' v \<noteq> None \<and> d' v = d v" by simp
    qed
    have nV: "n \<in> V" using n assms(4) by auto
    have "bfs_measure V ?q ?v < bfs_measure V queue visited"
      using assms(3) nV True by (rule bfs_measure_new)
    with r(5) have c: "bfs_measure V queue' visited' \<le> bfs_measure V queue visited" by simp
    have "fold (bfs_visit cur) (n # ns) (queue, visited) = (queue', visited')"
      using st r(1) by simp
    with r(2,3) a b c show ?thesis by auto
  qed
qed

lemma bfs_invD:
  assumes "bfs_inv nb s e d queue visited"
  shows "bfs_tree nb s d visited"
    "\<And>x. x \<in> set queue \<Longrightarrow> visited x \<noteq> None"
    "distinct queue" "sorted (map d queue)"
    "\<And>x. x \<in> set queue \<Longrightarrow> d x \<le> Suc (d (hd queue))"
    "\<And>v x. visited v \<noteq> None \<Longrightarrow> v \<notin> set queue \<Longrightarrow> x \<in> set queue \<Longrightarrow> d v \<le> d x"
    "\<And>v n. visited v \<noteq> None \<Longrightarrow> v \<notin> set queue \<Longrightarrow> n \<in> set (nb v)
        \<Longrightarrow> visited n \<noteq> None \<and> d n \<le> Suc (d v)"
    "visited e \<noteq> None \<Longrightarrow> e \<in> set queue"
  using assms unfolding bfs_inv_def by blast+

lemma bfs_mid_done:
  assumes mid: "bfs_mid nb s e d cur queue visited"
    and nbs: "\<forall>n\<in>set (nb cur). visited n \<noteq> None \<and> d n \<le> Suc (d cur)"
  shows "bfs_inv nb s e d queue visited"
  unfolding bfs_inv_def
proof (intro conjI)
  show "bfs_tree nb s d visited" by (rule bfs_midD(1)[OF mid])
  show "\<forall>x\<in>set queue. visited x \<noteq> None" using bfs_midD(2)[OF mid] by blast
  show "distinct queue" by (rule bfs_midD(3)[OF mid])
  show "sorted (map d queue)" by (rule bfs_midD(4)[OF mid])
  show "\<forall>x\<in>set queue. d x \<le> Suc (d (hd queue))"
  proof
    fix x assume x: "x \<in> set queue"
    then have "hd queue \<in> set queue" by (cases queue) auto
    then have "d cur \<le> d (hd queue)" by (rule bfs_midD(5)[OF mid])
    moreover have "d x \<le> Suc (d cur)" by (rule bfs_midD(6)[OF mid x])
    ultimately show "d x \<le> Suc (d (hd queue))" by simp
  qed
  show "\<forall>v. visited v \<noteq> None \<and> v \<notin> set queue \<longrightarrow> (\<forall>x\<in>set queue. d v \<le> d x)"
  proof (intro allI impI ballI)
    fix v x assume v: "visited v \<noteq> None \<and> v \<notin> set queue" and x: "x \<in> set queue"
    have "d v \<le> d cur" using bfs_midD(9)[OF mid] v by blast
    moreover have "d cur \<le> d x" by (rule bfs_midD(5)[OF mid x])
    ultimately show "d v \<le> d x" by simp
  qed
  show "\<forall>v. visited v \<noteq> None \<and> v \<notin> set queue \<longrightarrow>
         (\<forall>n\<in>set (nb v). visited n \<noteq> None \<and> d n \<le> Suc (d v))"
  proof (intro allI impI ballI)
    fix v n assume v: "visited v \<noteq> None \<and> v \<notin> set queue" and n: "n \<in> set (nb v)"
    show "visited n \<noteq> None \<and> d n \<le> Suc (d v)"
    proof (cases "v = cur")
      case True with nbs n show ?thesis by blast
    next
      case False
      with v n show ?thesis using bfs_midD(10)[OF mid] by blast
    qed
  qed
  show "visited e \<noteq> None \<longrightarrow> e \<in> set queue" using bfs_midD(11)[OF mid] by blast
qed

lemma walk_back_tree:
  assumes t: "bfs_tree nb s d visited" and v: "visited v \<noteq> None"
  shows "\<exists>chain. walk_back visited (Some v) acc = Some (Inr (acc @ chain)) \<and>
           length chain = Suc (d v) \<and> is_path nb (rev chain) \<and>
           hd (rev chain) = s \<and> last (rev chain) = v"
  using v
proof (induction "d v" arbitrary: v acc)
  case 0
  have "visited v = Some None"
  proof (rule ccontr)
    assume "visited v \<noteq> Some None"
    with 0(2) obtain p where "visited v = Some (Some p)" by auto
    then have "d v = Suc (d p)" by (rule bfs_treeD(6)[OF t])
    with 0(1) show False by simp
  qed
  then have "walk_back visited (Some v) acc = Some (Inr (acc @ [v]))"
    by (subst walk_back.simps, simp, subst walk_back.simps, simp)
  moreover have "v = s" using \<open>visited v = Some None\<close> by (rule bfs_treeD(3)[OF t])
  ultimately show ?case using 0(1) by (intro exI[of _ "[v]"]) simp
next
  case (Suc k)
  have "visited v \<noteq> Some None"
  proof
    assume "visited v = Some None"
    then have "v = s" by (rule bfs_treeD(3)[OF t])
    with bfs_treeD(2)[OF t] Suc(2) show False by simp
  qed
  with Suc(3) obtain p where vp: "visited v = Some (Some p)" by auto
  have dp: "d v = Suc (d p)" by (rule bfs_treeD(6)[OF t vp])
  have pv: "visited p \<noteq> None" by (rule bfs_treeD(4)[OF t vp])
  have vn: "v \<in> set (nb p)" by (rule bfs_treeD(5)[OF t vp])
  from dp Suc(2) have "k = d p" by simp
  from Suc(1)[OF this pv, of "acc @ [v]"] obtain chain where
    c: "walk_back visited (Some p) (acc @ [v]) = Some (Inr ((acc @ [v]) @ chain))"
       "length chain = Suc (d p)" "is_path nb (rev chain)"
       "hd (rev chain) = s" "last (rev chain) = p"
    by blast
  have ne: "rev chain \<noteq> []" using c(2) by auto
  have "walk_back visited (Some v) acc = Some (Inr (acc @ (v # chain)))"
    using vp c(1) by (subst walk_back.simps) simp
  moreover have "is_path nb (rev (v # chain))"
    using c(3,5) vn ne by (simp add: is_path_snoc)
  moreover have "hd (rev (v # chain)) = s" using c(4) ne by simp
  ultimately show ?case using c(2) dp
    by (intro exI[of _ "v # chain"]) simp
qed

lemma bfs_path_bound:
  assumes inv: "bfs_inv nb s e d queue visited" and p: "is_path nb p" "hd p = s"
  shows "(visited (last p) \<noteq> None \<and> d (last p) \<le> length p - 1) \<or>
         (\<exists>x\<in>set queue. d x \<le> length p - 1)"
  using p
proof (induction p rule: rev_induct)
  case Nil
  then show ?case by simp
next
  case (snoc y p)
  note t = bfs_invD(1)[OF inv]
  show ?case
  proof (cases "p = []")
    case True
    with snoc.prems have "y = s" by simp
    with bfs_treeD(1,2)[OF t] True show ?thesis by simp
  next
    case False
    with snoc.prems have pp: "is_path nb p" "y \<in> set (nb (last p))" "hd p = s"
      by (auto simp: is_path_snoc)
    from snoc.IH[OF pp(1,3)] show ?thesis
    proof
      assume a: "visited (last p) \<noteq> None \<and> d (last p) \<le> length p - 1"
      show ?thesis
      proof (cases "last p \<in> set queue")
        case True
        from a have "d (last p) \<le> length p - 1" by blast
        then have "d (last p) \<le> length (p @ [y]) - 1" by simp
        with True show ?thesis by blast
      next
        case nq: False
        have "visited y \<noteq> None \<and> d y \<le> Suc (d (last p))"
          using bfs_invD(7)[OF inv _ nq pp(2)] a by blast
        moreover from a have "d (last p) \<le> length p - 1" by blast
        moreover have "Suc (length p - 1) = length p" using False by (cases p) simp_all
        ultimately have "visited y \<noteq> None \<and> d y \<le> length (p @ [y]) - 1" by auto
        then show ?thesis by simp
      qed
    next
      assume "\<exists>x\<in>set queue. d x \<le> length p - 1"
      then obtain x where "x \<in> set queue" "d x \<le> length p - 1" by blast
      then have "x \<in> set queue" "d x \<le> length (p @ [y]) - 1" by simp_all
      then show ?thesis by blast
    qed
  qed
qed

lemma bfs_loop_total:
  assumes fin: "finite V" and closed: "\<And>v. set (nb v) \<subseteq> V"
    and inv: "bfs_inv nb s e d queue visited"
  shows "\<exists>r. bfs_loop nb e queue visited = Some (Inr r) \<and> bfs_result_ok nb s e r"
  using inv
proof (induction "bfs_measure V queue visited" arbitrary: queue visited d rule: less_induct)
  case less
  note inv = less.prems
  show ?case
  proof (cases queue)
    case Nil
    have "bfs_loop nb e queue visited = Some (Inr None)"
      using Nil by (subst bfs_loop.simps) simp
    moreover have "bfs_result_ok nb s e None"
      unfolding bfs_result_ok_def
    proof (simp, intro allI impI)
      fix p assume p: "is_path nb p \<and> hd p = s"
      from bfs_path_bound[OF inv] p Nil have "visited (last p) \<noteq> None" by auto
      moreover have "visited e = None"
      proof (rule ccontr)
        assume "visited e \<noteq> None"
        then have "e \<in> set queue" by (rule bfs_invD(8)[OF inv])
        with Nil show False by simp
      qed
      ultimately show "last p \<noteq> e" by auto
    qed
    ultimately show ?thesis by blast
  next
    case (Cons cur rest)
    show ?thesis
    proof (cases "cur = e")
      case True
      have ve: "visited e \<noteq> None" using bfs_invD(2)[OF inv] Cons True by simp
      from walk_back_tree[OF bfs_invD(1)[OF inv] ve, of "[]"] obtain chain where
        c: "walk_back visited (Some e) [] = Some (Inr chain)"
           "length chain = Suc (d e)" "is_path nb (rev chain)"
           "hd (rev chain) = s" "last (rev chain) = e"
        by auto
      have "bfs_loop nb e queue visited = Some (Inr (Some (rev chain)))"
        using Cons True c(1) by (subst bfs_loop.simps) simp
      moreover have "bfs_result_ok nb s e (Some (rev chain))"
        unfolding bfs_result_ok_def
      proof (simp add: c, intro allI impI)
        fix p assume p: "is_path nb p \<and> hd p = s \<and> last p = e"
        then have ne: "p \<noteq> []" by auto
        have "d e \<le> length p - 1"
        proof -
          from bfs_path_bound[OF inv] p
          have "(visited e \<noteq> None \<and> d e \<le> length p - 1) \<or> (\<exists>x\<in>set queue. d x \<le> length p - 1)"
            by auto
          then show ?thesis
          proof
            assume "visited e \<noteq> None \<and> d e \<le> length p - 1"
            then show ?thesis by blast
          next
            assume "\<exists>x\<in>set queue. d x \<le> length p - 1"
            then obtain x where x: "x \<in> set queue" "d x \<le> length p - 1" by blast
            have "d e \<le> d x"
              using bfs_invD(4)[OF inv] x(1) Cons True by auto
            with x(2) show ?thesis by simp
          qed
        qed
        with ne show "Suc (d e) \<le> length p" by (cases p) auto
      qed
      ultimately show ?thesis by blast
    next
      case False
      have mid: "bfs_mid nb s e d cur rest visited"
        using inv False unfolding Cons by (rule bfs_inv_pop)
      from bfs_fold[OF mid subset_refl fin closed] obtain d' queue' visited' where
        r: "fold (bfs_visit cur) (nb cur) (rest, visited) = (queue', visited')"
           "bfs_mid nb s e d' cur queue' visited'"
           "\<forall>n\<in>set (nb cur). visited' n \<noteq> None \<and> d' n \<le> Suc (d' cur)"
           "bfs_measure V queue' visited' \<le> bfs_measure V rest visited"
        by blast
      have inv': "bfs_inv nb s e d' queue' visited'"
        using r(2,3) by (rule bfs_mid_done)
      have "bfs_measure V queue' visited' < bfs_measure V queue visited"
        using r(4) Cons by (simp add: bfs_measure_def)
      from less.hyps[OF this inv'] obtain res where
        "bfs_loop nb e queue' visited' = Some (Inr res)" "bfs_result_ok nb s e res"
        by blast
      moreover have "bfs_loop nb e queue visited = bfs_loop nb e queue' visited'"
        using Cons False r(1) by (subst bfs_loop.simps) simp
      ultimately show ?thesis by auto
    qed
  qed
qed

lemma finite_maze_cells: "finite (maze_cells m)"
  by (simp add: maze_cells_def)

lemma is_valid_position_cells: "is_valid_position m p \<Longrightarrow> p \<in> maze_cells m"
  by (cases p) (simp add: is_valid_position_def maze_cells_def split: if_splits)

lemma Maze_get_neighbors_cells: "set (Maze_get_neighbors m v) \<subseteq> maze_cells m"
  by (cases v) (auto simp: Maze_get_neighbors_def dest: is_valid_position_cells)

text \<open>
  On every maze whose neighbour function stays inside the grid the search ends, raises
  nothing, and its result is as specified.
\<close>

lemma bfs_total:
  assumes "\<And>v. set (get_nb m v) \<subseteq> maze_cells m"
  shows "\<exists>r. bfs get_nb m = Some (Inr r) \<and>
           (case (get_start_position m, get_end_position m) of
              (Some s, Some e) \<Rightarrow> bfs_result_ok (get_nb m) s e r
            | _ \<Rightarrow> r = None)"
proof (cases "get_start_position m")
  case None
  then show ?thesis by (simp add: bfs_def)
next
  case (Some s)
  show ?thesis
  proof (cases "get_end_position m")
    case None
    with Some show ?thesis by (simp add: bfs_def)
  next
    case e: (Some e)
    from bfs_loop_total[OF finite_maze_cells assms bfs_inv_init[of "get_nb m" s e]]
    obtain r where "bfs_loop (get_nb m) e [s] [s \<mapsto> None] = Some (Inr r)"
      "bfs_result_ok (get_nb m) s e r" by blast
    with Some e show ?thesis by (simp add: bfs_def)
  qed
qed

text \<open>
  Claim C2. When \<open>PathFinder.bfs\<close> returns a path on a maze with start \<open>s\<close> and end
  \<open>e\<close>, that path leads from \<open>s\<close> to \<open>e\<close> along neighbours, and its number of edges
  (its length minus one) is at most that of every path from \<open>s\<close> to \<open>e\<close>.
\<close>

theorem bfs_shortest:
  assumes "PathFinder_bfs m = Some (Inr (Some path))"
    and "get_start_position m = Some s" and "get_end_position m = Some e"
    and "is_path (Maze_get_neighbors m) p" and "hd p = s" and "last p = e"
  shows "is_path (Maze_get_neighbors m) path \<and> hd path = s \<and> last path = e \<and>
         length path - 1 \<le> length p - 1"
proof -
  from bfs_total[of Maze_get_neighbors m, OF Maze_get_neighbors_cells] assms(1,2,3)
  have "bfs_result_ok (Maze_get_neighbors m) s e (Some path)"
    by (auto simp: PathFinder_bfs_def)
  with assms(4,5,6) show ?thesis
    unfolding bfs_result_ok_def by (simp add: diff_le_mono)
qed

lemma bfs_example:
  "PathFinder_bfs
     \<lparr>grid = [[StrCell ''1'', IntCell 0, StrCell ''F'']], height = 1, width = 3,
      heroes = [(StrCell ''1'', (0, 0))], end_pos = Some (0, 2)\<rparr>
   = Some (Inr (Some [(0, 0), (0, 1), (0, 2)]))"
  by (simp add: PathFinder_bfs_def bfs_def get_start_position_def get_end_position_def
      bfs_loop.simps bfs_visit_def Maze_get_neighbors_def is_valid_position_def walk_back.simps)

theorem bfs_shortest_witness:
  "PathFinder_bfs
     \<lparr>grid = [[StrCell ''1'', IntCell 0, StrCell ''F'']], height = 1, width = 3,
      heroes = [(StrCell ''1'', (0, 0))], end_pos = Some (0, 2)\<rparr>
   = Some (Inr (Some [(0, 0), (0, 1), (0, 2)])) \<and>
   is_path (Maze_get_neighbors
     \<lparr>grid = [[StrCell ''1'', IntCell 0, StrCell ''F'']], height = 1, width = 3,
      heroes = [(StrCell ''1'', (0, 0))], end_pos = Some (0, 2)\<rparr>)
     [(0, 0), (0, 1), (0, 0), (0, 1), (0, 2)] \<and>
   length [(0, 0), (0, 1), (0, 2) :: position] - 1 \<le>
     length [(0, 0), (0, 1), (0, 0), (0, 1), (0, 2) :: position] - 1"
proof -
  let ?m = "\<lparr>grid = [[StrCell ''1'', IntCell 0, StrCell ''F'']], height = 1, width = 3,
      heroes = [(StrCell ''1'', (0, 0))], end_pos = Some (0, 2)\<rparr>"
  have p: "is_path (Maze_get_neighbors ?m) [(0, 0), (0, 1), (0, 0), (0, 1), (0, 2)]"
    by (simp add: Maze_get_neighbors_def is_valid_position_def)
  have s: "get_start_position ?m = Some (0, 0)" by (simp add: get_start_position_def)
  have e: "get_end_position ?m = Some (0, 2)" by (simp add: get_end_position_def)
  from bfs_shortest[OF bfs_example s e p] bfs_example p show ?thesis by simp
qed

section \<open>Dijkstra's algorithm returns a cheapest path\<close>

lemma dij_invD:
  assumes "dij_inv nb w V s e pend pq csf cf"
  shows "csf s = Some 0" "cf s = Some None"
    "\<And>c v. (c, v) \<in> set pq \<Longrightarrow> \<exists>k. csf v = Some k \<and> k \<le> c"
    "distinct pq"
    "\<And>v k. csf v = Some k \<Longrightarrow> \<exists>r. k = Num r \<and> 0 \<le> r"
    "\<And>v. cf v = Some None \<Longrightarrow> v = s"
    "\<And>v p. cf v = Some (Some p) \<Longrightarrow>
         \<exists>k kp. csf v = Some k \<and> csf p = Some kp \<and> (kp, p) \<notin> set pq \<and>
                 v \<in> set (nb p) \<and> k = kp + w v"
    "\<And>v. (csf v = None) = (cf v = None)"
    "\<And>v k c x. csf v = Some k \<Longrightarrow> (k, v) \<notin> set pq \<Longrightarrow> (c, x) \<in> set pq \<Longrightarrow> k \<le> c"
    "\<And>v k n. csf v = Some k \<Longrightarrow> (k, v) \<notin> set pq \<Longrightarrow> Some v \<noteq> pend \<Longrightarrow> n \<in> set (nb v)
        \<Longrightarrow> \<exists>kn. csf n = Some kn \<and> kn \<le> k + w n"
    "\<And>k. csf e = Some k \<Longrightarrow> (k, e) \<in> set pq"
    "dom csf \<subseteq> V"
    "\<And>u. pend = Some u \<Longrightarrow>
         \<exists>c. csf u = Some c \<and> (c, u) \<notin> set pq \<and>
              (\<forall>v k. csf v = Some k \<and> (k, v) \<notin> set pq \<longrightarrow> k \<le> c)"
  using assms unfolding dij_inv_def by blast+

lemma dij_inv_init:
  assumes "s \<in> V"
  shows "dij_inv nb w V s e None [(0, s)] [s \<mapsto> 0] [s \<mapsto> None]"
  unfolding dij_inv_def using assms
  by (auto simp: zero_pyfloat_def split: if_splits)

lemma pyfloat_zero_le_Num: "(0 \<le> Num r) = (0 \<le> r)"
  by (simp add: zero_pyfloat_def)

lemma pyfloat_add_pos_less: "0 < r \<Longrightarrow> Num a < Num a + Num r"
  by simp

lemma dij_relax_better:
  assumes inv: "dij_inv nb w V s e (Some u) pq csf cf"
    and cu: "csf u = Some c" and n: "n \<in> set (nb u)"
    and wpos: "\<And>x y. y \<in> set (nb x) \<Longrightarrow> \<exists>r. w y = Num r \<and> 0 < r"
    and closed: "\<And>x. set (nb x) \<subseteq> V"
    and better: "case csf n of None \<Rightarrow> True | Some old \<Rightarrow> c + w n < old"
  shows "dij_inv nb w V s e (Some u) (pq @ [(c + w n, n)]) (csf(n \<mapsto> c + w n))
           (cf(n \<mapsto> Some u))"
    and "settled (pq @ [(c + w n, n)]) (csf(n \<mapsto> c + w n)) = settled pq csf"
proof -
  let ?new = "c + w n"
  let ?pq = "pq @ [(?new, n)]"
  let ?csf = "csf(n \<mapsto> ?new)"
  let ?cf = "cf(n \<mapsto> Some u)"
  note D = dij_invD[OF inv]
  from D(13)[OF refl] cu have usettled: "(c, u) \<notin> set pq"
    and maxc: "\<And>v k. csf v = Some k \<Longrightarrow> (k, v) \<notin> set pq \<Longrightarrow> k \<le> c"
    by auto
  from D(5)[OF cu] obtain rc where rc: "c = Num rc" "0 \<le> rc" by blast
  from wpos[OF n] obtain rw where rw: "w n = Num rw" "0 < rw" by blast
  have new: "?new = Num (rc + rw)" using rc rw by simp
  have c_less: "c < ?new" using rc rw by simp
  have nuns: "(k, n) \<in> set pq" if "csf n = Some k" for k
  proof (rule ccontr)
    assume "(k, n) \<notin> set pq"
    with that have "k \<le> c" by (rule maxc)
    moreover from better that have "?new < k" by simp
    ultimately show False using c_less by simp
  qed
  have nu: "n \<noteq> u"
  proof
    assume "n = u"
    with cu have "csf n = Some c" by simp
    from nuns[OF this] \<open>n = u\<close> usettled show False by simp
  qed
  have ns: "n \<noteq> s"
  proof
    assume "n = s"
    with D(1) better have "?new < 0" by simp
    then show False using new rc rw by (simp add: zero_pyfloat_def)
  qed
  have newq: "(?new, n) \<notin> set pq"
  proof
    assume "(?new, n) \<in> set pq"
    from D(3)[OF this] obtain k where "csf n = Some k" "k \<le> ?new" by blast
    with better show False by simp
  qed
  have sett_eq: "settled ?pq ?csf v = settled pq csf v" for v
  proof (cases "v = n")
    case True
    then show ?thesis using nuns by (auto simp: settled_def)
  next
    case False
    then show ?thesis by (auto simp: settled_def)
  qed
  then show "settled ?pq ?csf = settled pq csf" by (intro ext)
  have old_settled: "csf v = Some k \<and> (k, v) \<notin> set pq \<and> v \<noteq> n"
    if "?csf v = Some k" "(k, v) \<notin> set ?pq" for v k
  proof -
    have "v \<noteq> n" using that by auto
    with that show ?thesis by auto
  qed
  show "dij_inv nb w V s e (Some u) ?pq ?csf ?cf"
    unfolding dij_inv_def
  proof (intro conjI allI impI)
    show "?csf s = Some 0" using D(1) ns by simp
    show "?cf s = Some None" using D(2) ns by simp
    show "\<exists>k. ?csf v = Some k \<and> k \<le> c'" if "(c', v) \<in> set ?pq" for c' v
    proof (cases "v = n")
      case True
      show ?thesis
      proof (cases "(c', v) \<in> set pq")
        case inq: True
        from D(3)[OF inq] obtain k where k: "csf v = Some k" "k \<le> c'" by blast
        with better True have "?new < k" by simp
        with k True show ?thesis by simp
      next
        case False
        with that True have "c' = ?new" by simp
        with True show ?thesis by simp
      qed
    next
      case False
      with that have "(c', v) \<in> set pq" by simp
      from D(3)[OF this] False show ?thesis by simp
    qed
    show "distinct ?pq" using D(4) newq by simp
    show "\<exists>r. k = Num r \<and> 0 \<le> r" if "?csf v = Some k" for v k
    proof (cases "v = n")
      case True
      with that new rc rw show ?thesis by auto
    next
      case False
      with that D(5) show ?thesis by simp
    qed
    show "v = s" if "?cf v = Some None" for v
    proof -
      from that have "v \<noteq> n" by auto
      with that D(6) show ?thesis by simp
    qed
    show "\<exists>k kp. ?csf v = Some k \<and> ?csf p = Some kp \<and> (kp, p) \<notin> set ?pq \<and>
                 v \<in> set (nb p) \<and> k = kp + w v"
      if "?cf v = Some (Some p)" for v p
    proof (cases "v = n")
      case True
      with that have "p = u" by simp
      with True cu usettled nu n show ?thesis by auto
    next
      case False
      with that have "cf v = Some (Some p)" by simp
      from D(7)[OF this] obtain k kp where
        k: "csf v = Some k" "csf p = Some kp" "(kp, p) \<notin> set pq" "v \<in> set (nb p)" "k = kp + w v"
        by blast
      have "p \<noteq> n" using nuns k(2,3) by auto
      with k False show ?thesis by auto
    qed
    show "(?csf v = None) = (?cf v = None)" for v
      using D(8)[of v] by simp
    show "k \<le> c'" if "?csf v = Some k \<and> (k, v) \<notin> set ?pq \<and> (c', x) \<in> set ?pq" for v k c' x
    proof -
      from that old_settled have v: "csf v = Some k" "(k, v) \<notin> set pq" by blast+
      show ?thesis
      proof (cases "(c', x) \<in> set pq")
        case True
        then show ?thesis by (rule D(9)[OF v])
      next
        case False
        with that have "c' = ?new" by simp
        moreover have "k \<le> c" by (rule maxc[OF v])
        ultimately show ?thesis using c_less by simp
      qed
    qed
    show "\<exists>kn. ?csf n' = Some kn \<and> kn \<le> k + w n'"
      if "?csf v = Some k \<and> (k, v) \<notin> set ?pq \<and> Some v \<noteq> Some u \<and> n' \<in> set (nb v)" for v k n'
    proof -
      from that old_settled have v: "csf v = Some k" "(k, v) \<notin> set pq" by blast+
      from that have "Some v \<noteq> Some u" "n' \<in> set (nb v)" by blast+
      from D(10)[OF v this] obtain kn where kn: "csf n' = Some kn" "kn \<le> k + w n'" by blast
      show ?thesis
      proof (cases "n' = n")
        case True
        with kn better have "?new < kn" by simp
        with kn True show ?thesis by simp
      next
        case False
        with kn show ?thesis by simp
      qed
    qed
    show "(k, e) \<in> set ?pq" if "?csf e = Some k" for k
    proof (cases "e = n")
      case True
      with that show ?thesis by simp
    next
      case False
      with that D(11) show ?thesis by simp
    qed
    show "dom ?csf \<subseteq> V" using D(12) closed[of u] n by auto
    show "\<exists>c'. ?csf u' = Some c' \<and> (c', u') \<notin> set ?pq \<and>
              (\<forall>v k. ?csf v = Some k \<and> (k, v) \<notin> set ?pq \<longrightarrow> k \<le> c')"
      if "Some u = Some u'" for u'
    proof -
      from that have "u' = u" by simp
      moreover have "\<forall>v k. ?csf v = Some k \<and> (k, v) \<notin> set ?pq \<longrightarrow> k \<le> c"
        using old_settled maxc by blast
      ultimately show ?thesis using cu usettled nu by auto
    qed
  qed
qed

lemma dij_relax:
  assumes inv: "dij_inv nb w V s e (Some u) pq csf cf"
    and cu: "csf u = Some c" and n: "n \<in> set (nb u)"
    and wpos: "\<And>x y. y \<in> set (nb x) \<Longrightarrow> \<exists>r. w y = Num r \<and> 0 < r"
    and closed: "\<And>x. set (nb x) \<subseteq> V"
    and step: "relax w c u n (pq, csf, cf) = (pq', csf', cf')"
  shows "dij_inv nb w V s e (Some u) pq' csf' cf' \<and>
         settled pq' csf' = settled pq csf \<and>
         length pq' \<le> Suc (length pq) \<and>
         (\<exists>kn. csf' n = Some kn \<and> kn \<le> c + w n) \<and>
         (\<forall>v k. csf v = Some k \<longrightarrow> (\<exists>k'. csf' v = Some k' \<and> k' \<le> k)) \<and>
         csf' u = Some c"
proof (cases "case csf n of None \<Rightarrow> True | Some old \<Rightarrow> c + w n < old")
  case True
  with step have eq: "pq' = pq @ [(c + w n, n)]" "csf' = csf(n \<mapsto> c + w n)"
    "cf' = cf(n \<mapsto> Some u)"
    by (auto simp: relax_def heappush_def Let_def)
  note b = dij_relax_better[OF inv cu n wpos closed True]
  have nu: "n \<noteq> u"
  proof
    assume "n = u"
    with True cu have "c + w n < c" by simp
    moreover from dij_invD(5)[OF inv cu] obtain rc where "c = Num rc" by blast
    moreover from wpos[OF n] obtain rw where "w n = Num rw" "0 < rw" by blast
    ultimately show False by simp
  qed
  have mono: "\<forall>v k. csf v = Some k \<longrightarrow> (\<exists>k'. csf' v = Some k' \<and> k' \<le> k)"
  proof (intro allI impI)
    fix v k assume v: "csf v = Some k"
    show "\<exists>k'. csf' v = Some k' \<and> k' \<le> k"
    proof (cases "v = n")
      case vn: True
      with True v have "c + w n < k" by simp
      with vn show ?thesis unfolding eq by simp
    next
      case False
      with v show ?thesis unfolding eq by simp
    qed
  qed
  show ?thesis
    using b mono cu nu unfolding eq by simp
next
  case False
  with step have eq: "pq' = pq" "csf' = csf" "cf' = cf"
    by (auto simp: relax_def Let_def)
  from False obtain old where "csf n = Some old" "\<not> c + w n < old"
    by (cases "csf n") auto
  then have "\<exists>kn. csf n = Some kn \<and> kn \<le> c + w n" by simp
  with inv cu show ?thesis unfolding eq by simp
qed

lemma dij_fold:
  assumes inv: "dij_inv nb w V s e (Some u) pq csf cf"
    and cu: "csf u = Some c" and ns: "set ns \<subseteq> set (nb u)"
    and wpos: "\<And>x y. y \<in> set (nb x) \<Longrightarrow> \<exists>r. w y = Num r \<and> 0 < r"
    and closed: "\<And>x. set (nb x) \<subseteq> V"
  shows "\<exists>pq' csf' cf'.
           fold (relax w c u) ns (pq, csf, cf) = (pq', csf', cf') \<and>
           dij_inv nb w V s e (Some u) pq' csf' cf' \<and>
           settled pq' csf' = settled pq csf \<and>
           length pq' \<le> length pq + length ns \<and>
           (\<forall>n\<in>set ns. \<exists>kn. csf' n = Some kn \<and> kn \<le> c + w n) \<and>
           (\<forall>v k. csf v = Some k \<longrightarrow> (\<exists>k'. csf' v = Some k' \<and> k' \<le> k)) \<and>
           csf' u = Some c"
  using inv cu ns
proof (induction ns arbitrary: pq csf cf)
  case Nil
  then show ?case by simp
next
  case (Cons n ns)
  obtain pq1 csf1 cf1 where st: "relax w c u n (pq, csf, cf) = (pq1, csf1, cf1)"
    by (cases "relax w c u n (pq, csf, cf)") auto
  have n: "n \<in> set (nb u)" and ns: "set ns \<subseteq> set (nb u)" using Cons.prems(3) by auto
  have r1all: "dij_inv nb w V s e (Some u) pq1 csf1 cf1 \<and>
         settled pq1 csf1 = settled pq csf \<and>
         length pq1 \<le> Suc (length pq) \<and>
         (\<exists>kn. csf1 n = Some kn \<and> kn \<le> c + w n) \<and>
         (\<forall>v k. csf v = Some k \<longrightarrow> (\<exists>k'. csf1 v = Some k' \<and> k' \<le> k)) \<and>
         csf1 u = Some c"
    using Cons.prems(1,2) n
  proof (rule dij_relax)
    show "\<And>x y. y \<in> set (nb x) \<Longrightarrow> \<exists>r. w y = Num r \<and> 0 < r" by (rule wpos)
    show "\<And>x. set (nb x) \<subseteq> V" by (rule closed)
    show "relax w c u n (pq, csf, cf) = (pq1, csf1, cf1)" by (rule st)
  qed
  then have r1: "dij_inv nb w V s e (Some u) pq1 csf1 cf1"
    "settled pq1 csf1 = settled pq csf" "length pq1 \<le> Suc (length pq)"
    "\<exists>kn. csf1 n = Some kn \<and> kn \<le> c + w n"
    "\<forall>v k. csf v = Some k \<longrightarrow> (\<exists>k'. csf1 v = Some k' \<and> k' \<le> k)"
    "csf1 u = Some c"
    by blast+
  from Cons.IH[OF r1(1) r1(6) ns] obtain pq' csf' cf' where
    r: "fold (relax w c u) ns (pq1, csf1, cf1) = (pq', csf', cf')"
       "dij_inv nb w V s e (Some u) pq' csf' cf'"
       "settled pq' csf' = settled pq1 csf1"
       "length pq' \<le> length pq1 + length ns"
       "\<forall>n\<in>set ns. \<exists>kn. csf' n = Some kn \<and> kn \<le> c + w n"
       "\<forall>v k. csf1 v = Some k \<longrightarrow> (\<exists>k'. csf' v = Some k' \<and> k' \<le> k)"
       "csf' u = Some c"
    by blast
  have a: "fold (relax w c u) (n # ns) (pq, csf, cf) = (pq', csf', cf')"
    using st r(1) by simp
  have b: "\<exists>kn. csf' n = Some kn \<and> kn \<le> c + w n"
  proof -
    from r1(4) obtain k1 where k1: "csf1 n = Some k1" "k1 \<le> c + w n" by blast
    from r(6) k1(1) obtain k' where "csf' n = Some k'" "k' \<le> k1" by blast
    with k1(2) show ?thesis by auto
  qed
  have c: "\<forall>v k. csf v = Some k \<longrightarrow> (\<exists>k'. csf' v = Some k' \<and> k' \<le> k)"
  proof (intro allI impI)
    fix v k assume "csf v = Some k"
    with r1(5) obtain k1 where k1: "csf1 v = Some k1" "k1 \<le> k" by blast
    from r(6) k1(1) obtain k' where "csf' v = Some k'" "k' \<le> k1" by blast
    with k1(2) show "\<exists>k'. csf' v = Some k' \<and> k' \<le> k" by auto
  qed
  have d: "length pq' \<le> length pq + length (n # ns)" using r(4) r1(3) by simp
  have e: "settled pq' csf' = settled pq csf" using r(3) r1(2) by simp
  from a r(2) e d b r(5) c r(7) show ?case by auto
qed

lemma dij_close:
  assumes inv: "dij_inv nb w V s e (Some u) pq csf cf"
    and cu: "csf u = Some c"
    and alln: "\<forall>n\<in>set (nb u). \<exists>kn. csf n = Some kn \<and> kn \<le> c + w n"
  shows "dij_inv nb w V s e None pq csf cf"
proof -
  note D = dij_invD[OF inv]
  have rel: "\<exists>kn. csf n = Some kn \<and> kn \<le> k + w n"
    if v: "csf v = Some k" "(k, v) \<notin> set pq" "n \<in> set (nb v)" for v k n
  proof (cases "v = u")
    case True
    with v(1) cu have "k = c" by simp
    with alln v(3) True show ?thesis by blast
  next
    case False
    then have "Some v \<noteq> Some u" by simp
    from D(10)[OF v(1) v(2) this v(3)] show ?thesis .
  qed
  show ?thesis
    unfolding dij_inv_def
  proof (intro conjI allI impI)
    show "csf s = Some 0" by (rule D(1))
    show "cf s = Some None" by (rule D(2))
    show "\<exists>k. csf v = Some k \<and> k \<le> c'" if "(c', v) \<in> set pq" for c' v
      using that by (rule D(3))
    show "distinct pq" by (rule D(4))
    show "\<exists>r. k = Num r \<and> 0 \<le> r" if "csf v = Some k" for v k using that by (rule D(5))
    show "v = s" if "cf v = Some None" for v using that by (rule D(6))
    show "\<exists>k kp. csf v = Some k \<and> csf p = Some kp \<and> (kp, p) \<notin> set pq \<and>
                 v \<in> set (nb p) \<and> k = kp + w v" if "cf v = Some (Some p)" for v p
      using that by (rule D(7))
    show "(csf v = None) = (cf v = None)" for v by (rule D(8))
    show "k \<le> c'" if "csf v = Some k \<and> (k, v) \<notin> set pq \<and> (c', x) \<in> set pq" for v k c' x
      using that D(9) by blast
    show "\<exists>kn. csf n = Some kn \<and> kn \<le> k + w n"
      if "csf v = Some k \<and> (k, v) \<notin> set pq \<and> Some v \<noteq> None \<and> n \<in> set (nb v)" for v k n
      using that rel by blast
    show "(k, e) \<in> set pq" if "csf e = Some k" for k using that by (rule D(11))
    show "dom csf \<subseteq> V" by (rule D(12))
    show "\<exists>c. csf u' = Some c \<and> (c, u') \<notin> set pq \<and>
              (\<forall>v k. csf v = Some k \<and> (k, v) \<notin> set pq \<longrightarrow> k \<le> c)" if "None = Some u'" for u'
      using that by simp
  qed
qed

lemma Min_pair_fst:
  fixes pq :: "(pyfloat \<times> 'a::linorder) list"
  assumes "Min (set pq) = (c, u)" and "(c', x) \<in> set pq"
  shows "c \<le> c'"
proof -
  have "Min (set pq) \<le> (c', x)" using assms(2) by simp
  with assms(1) show ?thesis by (auto simp: less_eq_prod_def)
qed

lemma dij_pop_stale:
  fixes pq :: "(pyfloat \<times> 'a::linorder) list"
  assumes inv: "dij_inv nb w V s e None pq csf cf"
    and mem: "(c, u) \<in> set pq" and ue: "u \<noteq> e"
    and known: "csf u = Some known" and stale: "known < c"
  shows "dij_inv nb w V s e None (remove1 (c, u) pq) csf cf"
    and "settled (remove1 (c, u) pq) csf = settled pq csf"
proof -
  let ?rest = "remove1 (c, u) pq"
  note D = dij_invD[OF inv]
  have sub: "set ?rest \<subseteq> set pq" by (rule set_remove1_subset)
  have ins: "x \<in> set ?rest" if "x \<in> set pq" "x \<noteq> (c, u)" for x
    using that by simp
  have same: "(k, v) \<notin> set pq" if "csf v = Some k" "(k, v) \<notin> set ?rest" for v k
  proof
    assume a: "(k, v) \<in> set pq"
    have "(k, v) = (c, u)"
    proof (rule ccontr)
      assume "(k, v) \<noteq> (c, u)"
      with a have "(k, v) \<in> set ?rest" by (rule ins)
      with that(2) show False by simp
    qed
    with that(1) known stale show False by simp
  qed
  have sett: "settled ?rest csf v = settled pq csf v" for v
  proof (cases "csf v")
    case None
    then show ?thesis by (simp add: settled_def)
  next
    case (Some k)
    have "((k, v) \<notin> set ?rest) = ((k, v) \<notin> set pq)" using same[OF Some] sub by blast
    with Some show ?thesis by (simp add: settled_def)
  qed
  then show "settled ?rest csf = settled pq csf" by (intro ext)
  show "dij_inv nb w V s e None ?rest csf cf"
    unfolding dij_inv_def
  proof (intro conjI allI impI)
    show "csf s = Some 0" by (rule D(1))
    show "cf s = Some None" by (rule D(2))
    show "\<exists>k. csf v = Some k \<and> k \<le> c'" if "(c', v) \<in> set ?rest" for c' v
      using that sub D(3) by blast
    show "distinct ?rest" using D(4) by simp
    show "\<exists>r. k = Num r \<and> 0 \<le> r" if "csf v = Some k" for v k using that by (rule D(5))
    show "v = s" if "cf v = Some None" for v using that by (rule D(6))
    show "\<exists>k kp. csf v = Some k \<and> csf p = Some kp \<and> (kp, p) \<notin> set ?rest \<and>
                 v \<in> set (nb p) \<and> k = kp + w v" if "cf v = Some (Some p)" for v p
      using D(7)[OF that] sub by blast
    show "(csf v = None) = (cf v = None)" for v by (rule D(8))
    show "k \<le> c'" if "csf v = Some k \<and> (k, v) \<notin> set ?rest \<and> (c', x) \<in> set ?rest" for v k c' x
    proof -
      from that have "(k, v) \<notin> set pq" using same by blast
      moreover from that sub have "(c', x) \<in> set pq" by blast
      ultimately show ?thesis using that D(9) by blast
    qed
    show "\<exists>kn. csf n = Some kn \<and> kn \<le> k + w n"
      if "csf v = Some k \<and> (k, v) \<notin> set ?rest \<and> Some v \<noteq> None \<and> n \<in> set (nb v)" for v k n
    proof -
      from that have "(k, v) \<notin> set pq" using same by blast
      with that show ?thesis using D(10) by blast
    qed
    show "(k, e) \<in> set ?rest" if "csf e = Some k" for k
    proof (rule ins)
      show "(k, e) \<in> set pq" using that by (rule D(11))
      show "(k, e) \<noteq> (c, u)" using ue by simp
    qed
    show "dom csf \<subseteq> V" by (rule D(12))
    show "\<exists>c. csf u' = Some c \<and> (c, u') \<notin> set ?rest \<and>
              (\<forall>v k. csf v = Some k \<and> (k, v) \<notin> set ?rest \<longrightarrow> k \<le> c)" if "None = Some u'" for u'
      using that by simp
  qed
qed

lemma dij_pop_fresh:
  fixes pq :: "(pyfloat \<times> 'a::linorder) list"
  assumes inv: "dij_inv nb w V s e None pq csf cf"
    and mn: "Min (set pq) = (c, u)" and mem: "(c, u) \<in> set pq" and ue: "u \<noteq> e"
    and known: "csf u = Some c"
  shows "dij_inv nb w V s e (Some u) (remove1 (c, u) pq) csf cf"
    and "settled (remove1 (c, u) pq) csf = (settled pq csf)(u := True)"
    and "\<not> settled pq csf u"
proof -
  let ?rest = "remove1 (c, u) pq"
  note D = dij_invD[OF inv]
  have sub: "set ?rest \<subseteq> set pq" by (rule set_remove1_subset)
  have ins: "x \<in> set ?rest" if "x \<in> set pq" "x \<noteq> (c, u)" for x
    using that by simp
  have out: "(c, u) \<notin> set ?rest" using D(4) by simp
  have cmin: "c \<le> c'" if "(c', x) \<in> set pq" for c' x
    using mn that by (rule Min_pair_fst)
  have same: "(k, v) \<notin> set pq \<or> (v = u \<and> k = c)" if "(k, v) \<notin> set ?rest" for v k
    using that ins by blast
  show nss: "\<not> settled pq csf u" using known mem by (simp add: settled_def)
  have sett: "settled ?rest csf v = ((settled pq csf)(u := True)) v" for v
  proof (cases "v = u")
    case True
    then show ?thesis using known out by (simp add: settled_def)
  next
    case False
    show ?thesis
    proof (cases "csf v")
      case None
      then show ?thesis using False by (simp add: settled_def)
    next
      case (Some k)
      have "((k, v) \<notin> set ?rest) = ((k, v) \<notin> set pq)" using same[of k v] False sub by blast
      with Some False show ?thesis by (simp add: settled_def)
    qed
  qed
  then show "settled ?rest csf = (settled pq csf)(u := True)" by (intro ext)
  have le_c: "k \<le> c" if "csf v = Some k" "(k, v) \<notin> set ?rest" for v k
  proof -
    from same[OF that(2)] show ?thesis
    proof
      assume "(k, v) \<notin> set pq"
      with that(1) show ?thesis using mem by (rule D(9))
    next
      assume "v = u \<and> k = c"
      then show ?thesis by simp
    qed
  qed
  show "dij_inv nb w V s e (Some u) ?rest csf cf"
    unfolding dij_inv_def
  proof (intro conjI allI impI)
    show "csf s = Some 0" by (rule D(1))
    show "cf s = Some None" by (rule D(2))
    show "\<exists>k. csf v = Some k \<and> k \<le> c'" if "(c', v) \<in> set ?rest" for c' v
      using that sub D(3) by blast
    show "distinct ?rest" using D(4) by simp
    show "\<exists>r. k = Num r \<and> 0 \<le> r" if "csf v = Some k" for v k using that by (rule D(5))
    show "v = s" if "cf v = Some None" for v using that by (rule D(6))
    show "\<exists>k kp. csf v = Some k \<and> csf p = Some kp \<and> (kp, p) \<notin> set ?rest \<and>
                 v \<in> set (nb p) \<and> k = kp + w v" if "cf v = Some (Some p)" for v p
      using D(7)[OF that] sub by blast
    show "(csf v = None) = (cf v = None)" for v by (rule D(8))
    show "k \<le> c'" if a: "csf v = Some k \<and> (k, v) \<notin> set ?rest \<and> (c', x) \<in> set ?rest" for v k c' x
    proof -
      from a sub have inq: "(c', x) \<in> set pq" by blast
      from a have "k \<le> c" using le_c by blast
      also have "c \<le> c'" using inq by (rule cmin)
      finally show ?thesis .
    qed
    show "\<exists>kn. csf n = Some kn \<and> kn \<le> k + w n"
      if a: "csf v = Some k \<and> (k, v) \<notin> set ?rest \<and> Some v \<noteq> Some u \<and> n \<in> set (nb v)" for v k n
    proof -
      from a have "v \<noteq> u" by simp
      with a same have "(k, v) \<notin> set pq" by blast
      with a show ?thesis using D(10) by blast
    qed
    show "(k, e) \<in> set ?rest" if "csf e = Some k" for k
    proof (rule ins)
      show "(k, e) \<in> set pq" using that by (rule D(11))
      show "(k, e) \<noteq> (c, u)" using ue by simp
    qed
    show "dom csf \<subseteq> V" by (rule D(12))
    show "\<exists>c. csf u' = Some c \<and> (c, u') \<notin> set ?rest \<and>
              (\<forall>v k. csf v = Some k \<and> (k, v) \<notin> set ?rest \<longrightarrow> k \<le> c)" if "Some u = Some u'" for u'
    proof -
      from that have "u' = u" by simp
      then show ?thesis using known out le_c by blast
    qed
  qed
qed

lemma path_cost_snoc: "p \<noteq> [] \<Longrightarrow> path_cost w (p @ [y]) = path_cost w p + w y"
  by (cases p) (simp_all add: path_cost_def)

lemma path_cost_single: "path_cost w [x] = 0"
  by (simp add: path_cost_def)

lemma dij_path_bound:
  assumes inv: "dij_inv nb w V s e None pq csf cf"
    and wpos: "\<And>x y. y \<in> set (nb x) \<Longrightarrow> \<exists>r. w y = Num r \<and> 0 < r"
    and p: "is_path nb p" "hd p = s"
  shows "(\<exists>k. csf (last p) = Some k \<and> k \<le> path_cost w p) \<or>
         (\<exists>c x. (c, x) \<in> set pq \<and> c \<le> path_cost w p)"
  using p
proof (induction p rule: rev_induct)
  case Nil
  then show ?case by simp
next
  case (snoc y p)
  note D = dij_invD[OF inv]
  show ?case
  proof (cases "p = []")
    case True
    with snoc.prems have "y = s" by simp
    with D(1) True show ?thesis by (simp add: path_cost_single)
  next
    case False
    with snoc.prems have pp: "is_path nb p" "y \<in> set (nb (last p))" "hd p = s"
      by (auto simp: is_path_snoc)
    have pc: "path_cost w (p @ [y]) = path_cost w p + w y" using False by (rule path_cost_snoc)
    from wpos[OF pp(2)] obtain r where r: "w y = Num r" "0 < r" by blast
    then have "0 \<le> w y" by (simp add: zero_pyfloat_def)
    then have "path_cost w p + 0 \<le> path_cost w p + w y" by (rule add_left_mono)
    then have up: "path_cost w p \<le> path_cost w (p @ [y])" using pc by simp
    from snoc.IH[OF pp(1,3)] show ?thesis
    proof
      assume "\<exists>k. csf (last p) = Some k \<and> k \<le> path_cost w p"
      then obtain k where k: "csf (last p) = Some k" "k \<le> path_cost w p" by blast
      show ?thesis
      proof (cases "(k, last p) \<in> set pq")
        case True
        moreover from k(2) up have "k \<le> path_cost w (p @ [y])" by (rule order_trans)
        ultimately show ?thesis by blast
      next
        case nq: False
        have "Some (last p) \<noteq> None" by simp
        from D(10)[OF k(1) nq this pp(2)] obtain kn where
          kn: "csf y = Some kn" "kn \<le> k + w y" by blast
        from k(2) have "k + w y \<le> path_cost w p + w y" by (rule add_right_mono)
        with kn(2) have "kn \<le> path_cost w (p @ [y])" using pc by simp
        with kn(1) show ?thesis by simp
      qed
    next
      assume "\<exists>c x. (c, x) \<in> set pq \<and> c \<le> path_cost w p"
      then obtain c x where cx: "(c, x) \<in> set pq" "c \<le> path_cost w p" by blast
      from cx(2) up have "c \<le> path_cost w (p @ [y])" by (rule order_trans)
      with cx(1) show ?thesis by blast
    qed
  qed
qed

lemma dij_walk_back:
  assumes inv: "dij_inv nb w V s e pend pq csf cf" and fin: "finite V"
    and wpos: "\<And>x y. y \<in> set (nb x) \<Longrightarrow> \<exists>r. w y = Num r \<and> 0 < r"
    and v: "csf v = Some k"
  shows "\<exists>chain. walk_back cf (Some v) acc = Some (Inr (acc @ chain)) \<and>
           is_path nb (rev chain) \<and> hd (rev chain) = s \<and> last (rev chain) = v \<and>
           path_cost w (rev chain) = k"
  using v
proof (induction "card {u \<in> V. \<exists>ku. csf u = Some ku \<and> ku < k}" arbitrary: v k acc
    rule: less_induct)
  case less
  note D = dij_invD[OF inv]
  note v = less.prems
  from v D(8)[of v] have "cf v \<noteq> None" by simp
  then obtain pr where pr: "cf v = Some pr" by blast
  show ?case
  proof (cases pr)
    case None
    with pr have cfv: "cf v = Some None" by simp
    then have vs: "v = s" by (rule D(6))
    with v D(1) have k0: "k = 0" by simp
    have "walk_back cf (Some v) acc = Some (Inr (acc @ [v]))"
      using cfv by (subst walk_back.simps, simp, subst walk_back.simps, simp)
    then show ?thesis using vs k0
      by (intro exI[of _ "[v]"]) (simp add: path_cost_single)
  next
    case (Some p)
    with pr have cfv: "cf v = Some (Some p)" by simp
    from D(7)[OF cfv] v obtain kp where
      kp: "csf p = Some kp" "v \<in> set (nb p)" "k = kp + w v" by auto
    from wpos[OF kp(2)] obtain r where r: "w v = Num r" "0 < r" by blast
    from D(5)[OF kp(1)] obtain rp where rp: "kp = Num rp" by blast
    have lt: "kp < k" using kp(3) r rp by simp
    have pV: "p \<in> V" using D(12) kp(1) by blast
    let ?Sp = "{u \<in> V. \<exists>ku. csf u = Some ku \<and> ku < kp}"
    let ?Sv = "{u \<in> V. \<exists>ku. csf u = Some ku \<and> ku < k}"
    have "?Sp \<subseteq> ?Sv" using lt by auto
    moreover have "p \<in> ?Sv" using pV kp(1) lt by simp
    moreover have "p \<notin> ?Sp" using kp(1) by simp
    ultimately have "?Sp \<subset> ?Sv" by blast
    moreover have "finite ?Sv" using fin by simp
    ultimately have "card ?Sp < card ?Sv" by (rule psubset_card_mono[rotated])
    from less.hyps[OF this kp(1), of "acc @ [v]"] obtain chain where
      c: "walk_back cf (Some p) (acc @ [v]) = Some (Inr ((acc @ [v]) @ chain))"
         "is_path nb (rev chain)" "hd (rev chain) = s" "last (rev chain) = p"
         "path_cost w (rev chain) = kp"
      by blast
    have ne: "rev chain \<noteq> []" using c(2) by auto
    have "walk_back cf (Some v) acc = Some (Inr (acc @ (v # chain)))"
      using cfv c(1) by (subst walk_back.simps) simp
    moreover have "is_path nb (rev (v # chain))"
      using c(2,4) kp(2) ne by (simp add: is_path_snoc)
    moreover have "hd (rev (v # chain)) = s" using c(3) ne by simp
    moreover have "path_cost w (rev (v # chain)) = k"
      using path_cost_snoc[OF ne, of w v] c(5) kp(3) by simp
    ultimately show ?thesis
      by (intro exI[of _ "v # chain"]) simp
  qed
qed

lemma heappop_Min:
  fixes pq :: "(pyfloat \<times> 'a::linorder) list"
  assumes "Min (set pq) = (c, u)"
  shows "heappop pq = ((c, u), remove1 (c, u) pq)"
  using assms by (simp add: heappop_def Let_def)

lemma length_remove1_mem: "x \<in> set xs \<Longrightarrow> Suc (length (remove1 x xs)) = length xs"
  by (induction xs) auto

lemma dij_measure_stale:
  assumes "(c, u) \<in> set pq" and "settled (remove1 (c, u) pq) csf = settled pq csf"
  shows "dij_measure K V (remove1 (c, u) pq) csf < dij_measure K V pq csf"
proof -
  from assms(1) have "Suc (length (remove1 (c, u) pq)) = length pq"
    by (rule length_remove1_mem)
  then have "length (remove1 (c, u) pq) < length pq" by arith
  then show ?thesis unfolding dij_measure_def assms(2) by simp
qed

lemma dij_measure_fresh:
  assumes fin: "finite V" and mem: "(c, u) \<in> set pq" and uV: "u \<in> V"
    and ns: "\<not> settled pq csf u"
    and s': "settled pq' csf' = (settled pq csf)(u := True)"
    and len: "length pq' \<le> length (remove1 (c, u) pq) + length (nb u)"
    and K: "length (nb u) \<le> K"
  shows "dij_measure K V pq' csf' < dij_measure K V pq csf"
proof -
  define A where "A = {v \<in> V. \<not> settled pq csf v}"
  define B where "B = {v \<in> V. \<not> settled pq' csf' v}"
  have B: "B = A - {u}" unfolding A_def B_def s' by auto
  have uA: "u \<in> A" using uV ns by (simp add: A_def)
  have finA: "finite A" using fin by (simp add: A_def)
  have cardB: "card A = Suc (card B)"
    unfolding B using card_Suc_Diff1[OF finA uA] by simp
  have l1: "Suc (length (remove1 (c, u) pq)) = length pq"
    using mem by (rule length_remove1_mem)
  have m: "Suc K * card A = Suc K * card B + Suc K"
    unfolding cardB by simp
  have "Suc (length pq') \<le> length pq + K" using len K l1 by arith
  then have "length pq' + Suc K * card B < length pq + Suc K * card A"
    unfolding m by arith
  then show ?thesis unfolding dij_measure_def A_def B_def .
qed

lemma dijkstra_loop_total:
  fixes nb :: "'a::linorder \<Rightarrow> 'a list"
  assumes fin: "finite V" and closed: "\<And>x. set (nb x) \<subseteq> V"
    and wpos: "\<And>x y. y \<in> set (nb x) \<Longrightarrow> \<exists>r. w y = Num r \<and> 0 < r"
    and K: "\<And>x. length (nb x) \<le> K"
    and inv: "dij_inv nb w V s e None pq csf cf"
  shows "\<exists>pq' csf' cf'. dijkstra_loop (nb, w) e (pq, csf, cf) = Some (Inr (pq', csf', cf')) \<and>
           dij_result_ok nb w s e cf'"
  using inv
proof (induction "dij_measure K V pq csf" arbitrary: pq csf cf rule: less_induct)
  case less
  note inv = less.prems
  note D = dij_invD[OF inv]
  have pb: "(\<exists>k. csf (last p) = Some k \<and> k \<le> path_cost w p) \<or>
         (\<exists>c x. (c, x) \<in> set pq \<and> c \<le> path_cost w p)" if "is_path nb p" "hd p = s" for p
    by (rule dij_path_bound[OF inv _ that]) (rule wpos)
  show ?case
  proof (cases "pq = []")
    case True
    have "dijkstra_loop (nb, w) e (pq, csf, cf) = Some (Inr (pq, csf, cf))"
      using True by (subst dijkstra_loop.simps) simp
    moreover have "dij_result_ok nb w s e cf"
    proof -
      have "csf e = None"
      proof (rule ccontr)
        assume "csf e \<noteq> None"
        then obtain k where "csf e = Some k" by blast
        then have "(k, e) \<in> set pq" by (rule D(11))
        with True show False by simp
      qed
      then have cfe: "cf e = None" using D(8)[of e] by simp
      have "last p \<noteq> e" if p: "is_path nb p \<and> hd p = s" for p
      proof -
        from p have "is_path nb p" "hd p = s" by simp_all
        from pb[OF this] True
        have "\<exists>k. csf (last p) = Some k \<and> k \<le> path_cost w p" by simp
        with \<open>csf e = None\<close> show ?thesis by auto
      qed
      with cfe show ?thesis by (simp add: dij_result_ok_def)
    qed
    ultimately show ?thesis by blast
  next
    case False
    obtain c u where mn: "Min (set pq) = (c, u)" by (cases "Min (set pq)") auto
    have mem: "(c, u) \<in> set pq"
    proof -
      have "Min (set pq) \<in> set pq" using False by (intro Min_in) simp_all
      with mn show ?thesis by simp
    qed
    note pop = heappop_Min[OF mn]
    let ?rest = "remove1 (c, u) pq"
    from D(3)[OF mem] obtain known where known: "csf u = Some known" "known \<le> c" by blast
    show ?thesis
    proof (cases "u = e")
      case True
      have "dijkstra_loop (nb, w) e (pq, csf, cf) = Some (Inr (?rest, csf, cf))"
        using False True pop by (subst dijkstra_loop.simps) simp
      moreover have "dij_result_ok nb w s e cf"
      proof -
        from D(11) known True have "(known, e) \<in> set pq" by simp
        with mn have "c \<le> known" by (rule Min_pair_fst)
        with known have kc: "known = c" by simp
        with known True have ce: "csf e = Some c" by simp
        then have "cf e \<noteq> None" using D(8)[of e] by simp
        then obtain x where x: "cf e = Some x" by blast
        have "\<exists>chain. walk_back cf (Some e) [] = Some (Inr ([] @ chain)) \<and>
           is_path nb (rev chain) \<and> hd (rev chain) = s \<and> last (rev chain) = e \<and>
           path_cost w (rev chain) = c"
          by (rule dij_walk_back[OF inv fin _ ce]) (rule wpos)
        then obtain chain where
          ch: "walk_back cf (Some e) [] = Some (Inr chain)" "is_path nb (rev chain)"
              "hd (rev chain) = s" "last (rev chain) = e" "path_cost w (rev chain) = c"
          by auto
        have "path_cost w (rev chain) \<le> path_cost w p"
          if p: "is_path nb p \<and> hd p = s \<and> last p = e" for p
        proof -
          from p have pp: "is_path nb p" "hd p = s" "last p = e" by simp_all
          from pb[OF pp(1,2)] show ?thesis
          proof
            assume "\<exists>k. csf (last p) = Some k \<and> k \<le> path_cost w p"
            with pp(3) ce ch(5) show ?thesis by simp
          next
            assume "\<exists>c' x. (c', x) \<in> set pq \<and> c' \<le> path_cost w p"
            then obtain c' x where cx: "(c', x) \<in> set pq" "c' \<le> path_cost w p" by blast
            from mn cx(1) have "c \<le> c'" by (rule Min_pair_fst)
            with cx(2) ch(5) show ?thesis by simp
          qed
        qed
        with ch x show ?thesis unfolding dij_result_ok_def by auto
      qed
      ultimately show ?thesis by blast
    next
      case ue: False
      show ?thesis
      proof (cases "known < c")
        case True
        have step: "dijkstra_loop (nb, w) e (pq, csf, cf) = dijkstra_loop (nb, w) e (?rest, csf, cf)"
          using False ue pop known(1) True by (subst dijkstra_loop.simps) simp
        note st = dij_pop_stale[OF inv mem ue known(1) True]
        have "dij_measure K V ?rest csf < dij_measure K V pq csf"
          using mem st(2) by (rule dij_measure_stale)
        from less.hyps[OF this st(1)] step show ?thesis by simp
      next
        case nl: False
        with known(2) have kc: "known = c" by simp
        with known(1) have cu: "csf u = Some c" by simp
        note fr = dij_pop_fresh[OF inv mn mem ue cu]
        have "\<exists>pq' csf' cf'.
           fold (relax w c u) (nb u) (?rest, csf, cf) = (pq', csf', cf') \<and>
           dij_inv nb w V s e (Some u) pq' csf' cf' \<and>
           settled pq' csf' = settled ?rest csf \<and>
           length pq' \<le> length ?rest + length (nb u) \<and>
           (\<forall>n\<in>set (nb u). \<exists>kn. csf' n = Some kn \<and> kn \<le> c + w n) \<and>
           (\<forall>v k. csf v = Some k \<longrightarrow> (\<exists>k'. csf' v = Some k' \<and> k' \<le> k)) \<and>
           csf' u = Some c"
          using fr(1) cu
        proof (rule dij_fold)
          show "set (nb u) \<subseteq> set (nb u)" by simp
          show "\<And>x y. y \<in> set (nb x) \<Longrightarrow> \<exists>r. w y = Num r \<and> 0 < r" by (rule wpos)
          show "\<And>x. set (nb x) \<subseteq> V" by (rule closed)
        qed
        then obtain pq' csf' cf' where
          f: "fold (relax w c u) (nb u) (?rest, csf, cf) = (pq', csf', cf')"
             "dij_inv nb w V s e (Some u) pq' csf' cf'"
             "settled pq' csf' = settled ?rest csf"
             "length pq' \<le> length ?rest + length (nb u)"
             "\<forall>n\<in>set (nb u). \<exists>kn. csf' n = Some kn \<and> kn \<le> c + w n"
             "csf' u = Some c"
          by blast
        have inv': "dij_inv nb w V s e None pq' csf' cf'"
          using f(2,6,5) by (rule dij_close)
        have step: "dijkstra_loop (nb, w) e (pq, csf, cf) = dijkstra_loop (nb, w) e (pq', csf', cf')"
          using False ue pop cu f(1) by (subst dijkstra_loop.simps) simp
        have uV: "u \<in> V" using D(12) cu by blast
        have s': "settled pq' csf' = (settled pq csf)(u := True)" using f(3) fr(2) by simp
        have "dij_measure K V pq' csf' < dij_measure K V pq csf"
          using fin mem uV fr(3) s' f(4) K by (rule dij_measure_fresh)
        from less.hyps[OF this inv'] step show ?thesis by simp
      qed
    qed
  qed
qed

lemma dict_literal_fold:
  "fold (\<lambda>(k, v) d. d(k \<mapsto> v)) items d0 k = Some v \<Longrightarrow> (k, v) \<in> set items \<or> d0 k = Some v"
proof (induction items arbitrary: d0)
  case Nil
  then show ?case by simp
next
  case (Cons a items)
  obtain k' v' where a: "a = (k', v')" by (cases a)
  from Cons.prems have "fold (\<lambda>(k, v) d. d(k \<mapsto> v)) items (d0(k' \<mapsto> v')) k = Some v"
    unfolding a fold_Cons comp_apply prod.case .
  from Cons.IH[OF this] show ?case using a by (auto split: if_splits)
qed

lemma dict_literal_mem: "dict_literal items k = Some v \<Longrightarrow> (k, v) \<in> set items"
  unfolding dict_literal_def using dict_literal_fold[of items Map.empty k v] by simp

lemma pyfloat_positive: "Num 0 < x \<Longrightarrow> x \<noteq> PosInf \<Longrightarrow> \<exists>r. x = Num r \<and> 0 < r"
  by (cases x) simp_all

lemma TERRAIN_ITEMS_positive:
  assumes "(k, i) \<in> set TERRAIN_ITEMS" and "info_passable i"
  shows "\<exists>r. info_cost i = Num r \<and> 0 < r"
proof (rule pyfloat_positive)
  show "Num 0 < info_cost i" using assms by (auto simp: TERRAIN_ITEMS_def)
  show "info_cost i \<noteq> PosInf" using assms by (auto simp: TERRAIN_ITEMS_def)
qed

lemma passable_cost_positive:
  assumes "is_passable m p"
  shows "\<exists>r. get_terrain_cost m p = Num r \<and> 0 < r"
proof (cases "TERRAIN_TYPES (get_terrain_type m p)")
  case None
  with assms show ?thesis
    by (simp add: is_passable_def get_terrain_info_def unknown_terrain_def split: if_splits)
next
  case (Some i)
  then have "(get_terrain_type m p, i) \<in> set TERRAIN_ITEMS"
    unfolding TERRAIN_TYPES_def by (rule dict_literal_mem)
  moreover from assms Some have "info_passable i"
    by (simp add: is_passable_def get_terrain_info_def split: if_splits)
  ultimately have "\<exists>r. info_cost i = Num r \<and> 0 < r" by (rule TERRAIN_ITEMS_positive)
  with Some show ?thesis by (simp add: get_terrain_cost_def get_terrain_info_def)
qed

lemma TerrainMaze_get_neighbors_passable:
  "y \<in> set (TerrainMaze_get_neighbors m x) \<Longrightarrow> is_passable m y"
  by (cases x) (simp add: TerrainMaze_get_neighbors_def del: filter.simps)

lemma TerrainMaze_get_neighbors_cells: "set (TerrainMaze_get_neighbors m x) \<subseteq> maze_cells m"
proof
  fix y assume "y \<in> set (TerrainMaze_get_neighbors m x)"
  then have "is_passable m y" by (rule TerrainMaze_get_neighbors_passable)
  then have "is_valid_position m y" by (simp add: is_passable_def split: if_splits)
  then show "y \<in> maze_cells m" by (rule is_valid_position_cells)
qed

lemma TerrainMaze_get_neighbors_length: "length (TerrainMaze_get_neighbors m x) \<le> 4"
proof (cases x)
  case (Pair row col)
  have "length (filter (is_passable m) [(row - 1, col), (row + 1, col), (row, col - 1), (row, col + 1)])
          \<le> length [(row - 1, col), (row + 1, col), (row, col - 1), (row, col + 1)]"
    by (rule length_filter_le)
  with Pair show ?thesis by (simp add: TerrainMaze_get_neighbors_def)
qed

lemma fold_add_sum_list:
  fixes acc :: pyfloat
  shows "fold (\<lambda>i t. t + f i) is acc = acc + sum_list (map f is)"
  by (induction "is" arbitrary: acc) (simp_all add: add.assoc)

lemma map_nth_tl: "map ((!) xs) [1..<length xs] = tl xs"
proof (cases xs)
  case Nil
  then show ?thesis by simp
next
  case (Cons a ys)
  have "map ((!) (a # ys)) [Suc 0..<Suc (length ys)] = map ((!) ys) [0..<length ys]"
    by (simp add: map_Suc_upt[symmetric] del: upt_Suc)
  with Cons show ?thesis by (simp add: map_nth)
qed

lemma get_path_cost_path_cost: "get_path_cost m path = path_cost (get_terrain_cost m) path"
proof (cases "path = [] \<or> length path < 2")
  case True
  then have "tl path = []" by (cases path) auto
  with True show ?thesis by (simp add: get_path_cost_def path_cost_def)
next
  case False
  have "map (\<lambda>i. get_terrain_cost m (path ! i)) [1..<length path]
          = map (get_terrain_cost m) (map ((!) path) [1..<length path])" by simp
  also have "\<dots> = map (get_terrain_cost m) (tl path)" by (simp only: map_nth_tl)
  finally have "sum_list (map (\<lambda>i. get_terrain_cost m (path ! i)) [1..<length path])
          = sum_list (map (get_terrain_cost m) (tl path))" by simp
  with False show ?thesis
    by (simp add: get_path_cost_def path_cost_def fold_add_sum_list)
qed

lemma dijkstra_total:
  "\<exists>r. dijkstra m = Some (Inr r) \<and>
     (case (get_start_position m, get_end_position m) of
        (Some s, Some e) \<Rightarrow>
          (case r of
             None \<Rightarrow> (\<forall>p. is_path (TerrainMaze_get_neighbors m) p \<and> hd p = s \<longrightarrow> last p \<noteq> e)
           | Some path \<Rightarrow>
               is_path (TerrainMaze_get_neighbors m) path \<and> hd path = s \<and> last path = e \<and>
               (\<forall>p. is_path (TerrainMaze_get_neighbors m) p \<and> hd p = s \<and> last p = e \<longrightarrow>
                  get_path_cost m path \<le> get_path_cost m p))
      | _ \<Rightarrow> r = None)"
proof (cases "get_start_position m")
  case None
  then show ?thesis by (simp add: dijkstra_def)
next
  case (Some s)
  show ?thesis
  proof (cases "get_end_position m")
    case None
    with Some show ?thesis by (simp add: dijkstra_def)
  next
    case e: (Some e)
    let ?nb = "TerrainMaze_get_neighbors m"
    let ?w = "get_terrain_cost m"
    let ?V = "insert s (maze_cells m)"
    have fin: "finite ?V" using finite_maze_cells by simp
    have closed: "set (?nb x) \<subseteq> ?V" for x using TerrainMaze_get_neighbors_cells[of m x] by blast
    have wpos: "\<exists>r. ?w y = Num r \<and> 0 < r" if "y \<in> set (?nb x)" for x y
      using that by (intro passable_cost_positive TerrainMaze_get_neighbors_passable)
    have K: "length (?nb x) \<le> 4" for x by (rule TerrainMaze_get_neighbors_length)
    have init: "dij_inv ?nb ?w ?V s e None [(0, s)] [s \<mapsto> 0] [s \<mapsto> None]"
      by (rule dij_inv_init) simp
    have "\<exists>pq' csf' cf'. dijkstra_loop (?nb, ?w) e ([(0, s)], [s \<mapsto> 0], [s \<mapsto> None])
             = Some (Inr (pq', csf', cf')) \<and> dij_result_ok ?nb ?w s e cf'"
      using fin closed
    proof (rule dijkstra_loop_total)
      show "\<And>x y. y \<in> set (?nb x) \<Longrightarrow> \<exists>r. ?w y = Num r \<and> 0 < r" by (rule wpos)
      show "\<And>x. length (?nb x) \<le> 4" by (rule K)
      show "dij_inv ?nb ?w ?V s e None [(0, s)] [s \<mapsto> 0] [s \<mapsto> None]" by (rule init)
    qed
    then obtain pq' csf' cf' where
      l: "dijkstra_loop (?nb, ?w) e ([(0, s)], [s \<mapsto> 0], [s \<mapsto> None]) = Some (Inr (pq', csf', cf'))"
      and ok: "dij_result_ok ?nb ?w s e cf'" by blast
    show ?thesis
    proof (cases "cf' e")
      case None
      with ok have "\<forall>p. is_path ?nb p \<and> hd p = s \<longrightarrow> last p \<noteq> e"
        by (simp add: dij_result_ok_def)
      moreover have "dijkstra m = Some (Inr None)"
        using Some e l None by (simp add: dijkstra_def)
      ultimately show ?thesis using Some e by simp
    next
      case (Some x)
      with ok obtain chain where
        ch: "walk_back cf' (Some e) [] = Some (Inr chain)" "is_path ?nb (rev chain)"
            "hd (rev chain) = s" "last (rev chain) = e"
            "\<forall>p. is_path ?nb p \<and> hd p = s \<and> last p = e \<longrightarrow>
                  path_cost ?w (rev chain) \<le> path_cost ?w p"
        unfolding dij_result_ok_def by auto
      have "dijkstra m = Some (Inr (Some (rev chain)))"
        using \<open>get_start_position m = Some s\<close> e l Some ch(1) by (simp add: dijkstra_def)
      moreover have "\<forall>p. is_path ?nb p \<and> hd p = s \<and> last p = e \<longrightarrow>
                  get_path_cost m (rev chain) \<le> get_path_cost m p"
        using ch(5) by (simp add: get_path_cost_path_cost)
      ultimately show ?thesis
        using \<open>get_start_position m = Some s\<close> e ch(2,3,4) by simp
    qed
  qed
qed

lemma ex_init: "Maze_init [[StrCell ''1'', StrCell ''S'', StrCell ''F''],
                      [StrCell ''R'', StrCell ''R'', StrCell ''R'']] = Inr ex_maze"
  by (simp add: Maze_init_def ex_maze_def scan_positions_def scan_cell_def char_isdigit_def
      upt_rec numeral_2_eq_2 numeral_3_eq_3)

lemma ex_cost:
  "get_terrain_cost ex_maze (0, 0) = Num 1"
  "get_terrain_cost ex_maze (0, 1) = Num 5"
  "get_terrain_cost ex_maze (0, 2) = Num 1"
  "get_terrain_cost ex_maze (1, 0) = Num (1/2)"
  "get_terrain_cost ex_maze (1, 1) = Num (1/2)"
  "get_terrain_cost ex_maze (1, 2) = Num (1/2)"
  by (simp_all add: get_terrain_cost_def get_terrain_info_def get_terrain_type_def
      is_valid_position_def ex_maze_def TERRAIN_TYPES_def dict_literal_def TERRAIN_ITEMS_def)

lemma ex_nb:
  "TerrainMaze_get_neighbors ex_maze (0, 0) = [(1, 0), (0, 1)]"
  "TerrainMaze_get_neighbors ex_maze (0, 1) = [(1, 1), (0, 0), (0, 2)]"
  "TerrainMaze_get_neighbors ex_maze (0, 2) = [(1, 2), (0, 1)]"
  "TerrainMaze_get_neighbors ex_maze (1, 0) = [(0, 0), (1, 1)]"
  "TerrainMaze_get_neighbors ex_maze (1, 1) = [(0, 1), (1, 0), (1, 2)]"
  "TerrainMaze_get_neighbors ex_maze (1, 2) = [(0, 2), (1, 1)]"
  by (simp_all add: TerrainMaze_get_neighbors_def is_passable_def get_terrain_info_def
      get_terrain_type_def is_valid_position_def ex_maze_def TERRAIN_TYPES_def dict_literal_def
      TERRAIN_ITEMS_def)

lemma ex_ends:
  "get_start_position ex_maze = Some (0, 0)" "get_end_position ex_maze = Some (0, 2)"
  by (simp_all add: get_start_position_def get_end_position_def ex_maze_def)

lemma ex_dijkstra:
  "dijkstra ex_maze = Some (Inr (Some [(0, 0), (1, 0), (1, 1), (1, 2), (0, 2)]))"
  by (simp add: dijkstra_def ex_ends
      dijkstra_loop.simps heappop_def heappush_def relax_def Let_def ex_nb ex_cost
      walk_back.simps zero_pyfloat_def)

text \<open>
  Claim C1. When \<open>TerrainPathFinder.dijkstra\<close> returns a path on a maze with start \<open>s\<close>
  and end \<open>e\<close>, that path leads from \<open>s\<close> to \<open>e\<close> along passable neighbours, and its
  cost as computed by \<open>get_path_cost\<close> (the terrain costs of all its cells but the first)
  is at most the cost of every path of passable steps from \<open>s\<close> to \<open>e\<close>. The costs of
  the passable kinds of the terrain table are positive and finite, so no assumption on
  the costs is needed. The search itself always ends and raises nothing
  (\<open>dijkstra_total\<close>).
\<close>

theorem dijkstra_optimal:
  assumes "dijkstra m = Some (Inr (Some path))"
    and "get_start_position m = Some s" and "get_end_position m = Some e"
    and "is_path (TerrainMaze_get_neighbors m) p" and "hd p = s" and "last p = e"
  shows "is_path (TerrainMaze_get_neighbors m) path \<and> hd path = s \<and> last path = e \<and>
         get_path_cost m path \<le> get_path_cost m p"
proof -
  from dijkstra_total[of m] assms(1,2,3)
  have "is_path (TerrainMaze_get_neighbors m) path \<and> hd path = s \<and> last path = e \<and>
        (\<forall>p. is_path (TerrainMaze_get_neighbors m) p \<and> hd p = s \<and> last p = e \<longrightarrow>
             get_path_cost m path \<le> get_path_cost m p)"
    by auto
  with assms(4,5,6) show ?thesis by blast
qed

theorem dijkstra_optimal_witness:
  "dijkstra ex_maze = Some (Inr (Some [(0, 0), (1, 0), (1, 1), (1, 2), (0, 2)])) \<and>
   is_path (TerrainMaze_get_neighbors ex_maze) [(0, 0), (0, 1), (0, 2)] \<and>
   get_path_cost ex_maze [(0, 0), (1, 0), (1, 1), (1, 2), (0, 2)] = Num (5 / 2) \<and>
   get_path_cost ex_maze [(0, 0), (0, 1), (0, 2)] = Num 6 \<and>
   get_path_cost ex_maze [(0, 0), (1, 0), (1, 1), (1, 2), (0, 2)]
     \<le> get_path_cost ex_maze [(0, 0), (0, 1), (0, 2)]"
proof -
  have p: "is_path (TerrainMaze_get_neighbors ex_maze) [(0, 0), (0, 1), (0, 2)]"
    by (simp add: ex_nb)
  have c1: "get_path_cost ex_maze [(0, 0), (1, 0), (1, 1), (1, 2), (0, 2)] = Num (5 / 2)"
    by (simp add: get_path_cost_path_cost path_cost_def ex_cost)
  have c2: "get_path_cost ex_maze [(0, 0), (0, 1), (0, 2)] = Num 6"
    by (simp add: get_path_cost_path_cost path_cost_def ex_cost)
  from dijkstra_optimal[OF ex_dijkstra ex_ends p] ex_dijkstra p c1 c2 show ?thesis by simp
qed

section \<open>A* and the identities of the cells\<close>







lemma same_order_less: "same_order a b \<Longrightarrow> (a x < a y) = (b x < b y)"
  unfolding same_order_def by (metis not_le)

lemma same_order_eq: "same_order a b \<Longrightarrow> (a x = a y) = (b x = b y)"
  unfolding same_order_def by (metis order_antisym order_refl)


















section \<open>The meeting point with the least maximal arrival time\<close>

lemma fdiv_time_to_move:
  "speed \<noteq> 0 \<Longrightarrow> fdiv (get_terrain_cost m p) speed = Inr (time_to_move m speed p)"
  by (simp add: fdiv_def time_to_move_def split: pyfloat.splits)

lemma relax_time_relax:
  assumes "speed \<noteq> 0"
    and "relax (time_to_move m speed) c u n (pq, tsf, cf) = (pq', tsf', cf')"
  shows "relax_time m speed c n (pq, tsf) = Inr (pq', tsf')"
  using assms
  by (auto simp: relax_time_def relax_def fdiv_time_to_move Let_def split: if_splits)

lemma fold_relax_time:
  assumes "speed \<noteq> 0"
    and "fold (relax (time_to_move m speed) c u) ns (pq, tsf, cf) = (pq', tsf', cf')"
  shows "fold_err (relax_time m speed c) ns (pq, tsf) = Inr (pq', tsf')"
  using assms(2)
proof (induction ns arbitrary: pq tsf cf)
  case Nil
  then show ?case by simp
next
  case (Cons n ns)
  obtain pq1 tsf1 cf1 where s1: "relax (time_to_move m speed) c u n (pq, tsf, cf) = (pq1, tsf1, cf1)"
    by (cases "relax (time_to_move m speed) c u n (pq, tsf, cf)") auto
  from assms(1) s1 have r1: "relax_time m speed c n (pq, tsf) = Inr (pq1, tsf1)"
    by (rule relax_time_relax)
  from Cons.prems s1
  have "fold (relax (time_to_move m speed) c u) ns (pq1, tsf1, cf1) = (pq', tsf', cf')" by simp
  from Cons.IH[OF this] r1 show ?case by simp
qed

lemma time_to_move_positive:
  assumes "0 < speed" and "is_passable m p"
  shows "\<exists>r. time_to_move m speed p = Num r \<and> 0 < r"
proof -
  from passable_cost_positive[OF assms(2)] obtain r where "get_terrain_cost m p = Num r" "0 < r"
    by blast
  with assms(1) show ?thesis by (simp add: time_to_move_def)
qed

lemma set_update_subset: "set (AList.update k v al) \<subseteq> insert (k, v) (set al)"
  by (induct al) auto

lemma times_ok_record:
  assumes ok: "times_ok n distances" and idx: "idx < n" and t: "t \<noteq> PosInf"
  shows "times_ok n (record_time pos idx t distances)"
proof -
  let ?old = "case map_of distances pos of None \<Rightarrow> [] | Some tms \<Rightarrow> tms"
  let ?new = "AList.update idx t ?old"
  from ok have d: "distinct (map fst distances)"
    and each: "\<And>p tms. (p, tms) \<in> set distances \<Longrightarrow>
         distinct (map fst tms) \<and> (\<forall>(i, t) \<in> set tms. i < n \<and> t \<noteq> PosInf)"
    unfolding times_ok_def by blast+
  have old: "distinct (map fst ?old) \<and> (\<forall>(i, t) \<in> set ?old. i < n \<and> t \<noteq> PosInf)"
  proof (cases "map_of distances pos")
    case None
    then show ?thesis by simp
  next
    case (Some tms)
    then have "(pos, tms) \<in> set distances" by (rule map_of_SomeD)
    from each[OF this] Some show ?thesis by simp
  qed
  have new1: "distinct (map fst ?new)" using old by (simp add: distinct_update)
  have new2: "\<forall>(i, t) \<in> set ?new. i < n \<and> t \<noteq> PosInf"
  proof -
    have "set ?new \<subseteq> insert (idx, t) (set ?old)" by (rule set_update_subset)
    with old idx t show ?thesis by auto
  qed
  have 1: "distinct (map fst (AList.update pos ?new distances))"
    using d by (simp add: distinct_update)
  have 2: "distinct (map fst tms) \<and> (\<forall>(i, t) \<in> set tms. i < n \<and> t \<noteq> PosInf)"
    if "(p, tms) \<in> set (AList.update pos ?new distances)" for p tms
  proof -
    have "set (AList.update pos ?new distances) \<subseteq> insert (pos, ?new) (set distances)"
      by (rule set_update_subset)
    with that have "(p, tms) = (pos, ?new) \<or> (p, tms) \<in> set distances" by blast
    then show ?thesis
    proof
      assume "(p, tms) = (pos, ?new)"
      then have "tms = ?new" by simp
      with new1 new2 show ?thesis by simp
    next
      assume "(p, tms) \<in> set distances"
      then show ?thesis by (rule each)
    qed
  qed
  show ?thesis
    unfolding times_ok_def record_time_def using 1 2 by blast
qed

lemma record_time_nonempty: "record_time pos idx t distances \<noteq> []"
  by (cases distances) (simp_all add: record_time_def)

lemma record_time_has_idx:
  assumes "\<forall>(p, tms) \<in> set distances. map_of tms idx \<noteq> None"
  shows "\<forall>(p, tms) \<in> set (record_time pos idx t distances). map_of tms idx \<noteq> None"
proof -
  let ?new = "AList.update idx t (case map_of distances pos of None \<Rightarrow> [] | Some tms \<Rightarrow> tms)"
  have n: "map_of ?new idx \<noteq> None" by (simp add: update_conv')
  have "set (AList.update pos ?new distances) \<subseteq> insert (pos, ?new) (set distances)"
    by (rule set_update_subset)
  with assms n show ?thesis unfolding record_time_def by blast
qed

lemma source_loop_total:
  fixes V :: "position set"
  assumes fin: "finite V" and closed: "\<And>x. set (TerrainMaze_get_neighbors m x) \<subseteq> V"
    and speed: "0 < speed" and idx: "idx < n" and eV: "e \<notin> V"
    and inv: "dij_inv (TerrainMaze_get_neighbors m) (time_to_move m speed) V s e None pq tsf cf"
    and ok: "times_ok n distances"
  shows "\<exists>d'. source_loop m (idx, speed) (pq, tsf, distances) = Some (Inr d') \<and> times_ok n d' \<and>
           (distances \<noteq> [] \<or> (\<exists>c u. (c, u) \<in> set pq \<and> tsf u = Some c) \<longrightarrow> d' \<noteq> []) \<and>
           ((\<forall>(p, tms) \<in> set distances. map_of tms idx \<noteq> None)
              \<longrightarrow> (\<forall>(p, tms) \<in> set d'. map_of tms idx \<noteq> None))"
  using inv ok
proof (induction "dij_measure 4 V pq tsf" arbitrary: pq tsf cf distances rule: less_induct)
  case less
  note inv = less.prems(1) and ok = less.prems(2)
  note D = dij_invD[OF inv]
  let ?nb = "TerrainMaze_get_neighbors m" and ?w = "time_to_move m speed"
  have wpos: "\<exists>r. ?w y = Num r \<and> 0 < r" if "y \<in> set (?nb x)" for x y
    using speed TerrainMaze_get_neighbors_passable[OF that] by (rule time_to_move_positive)
  have K: "length (?nb x) \<le> 4" for x by (rule TerrainMaze_get_neighbors_length)
  have s0: "speed \<noteq> 0" using speed by simp
  show ?case
  proof (cases "pq = []")
    case True
    have "source_loop m (idx, speed) (pq, tsf, distances) = Some (Inr distances)"
      using True by (subst source_loop.simps) simp
    with ok True show ?thesis by simp
  next
    case False
    obtain c u where mn: "Min (set pq) = (c, u)" by (cases "Min (set pq)") auto
    have mem: "(c, u) \<in> set pq"
    proof -
      have "Min (set pq) \<in> set pq" using False by (intro Min_in) simp_all
      with mn show ?thesis by simp
    qed
    note pop = heappop_Min[OF mn]
    let ?rest = "remove1 (c, u) pq"
    from D(3)[OF mem] obtain known where known: "tsf u = Some known" "known \<le> c" by blast
    have uV: "u \<in> V" using D(12) known(1) by blast
    have ue: "u \<noteq> e" using uV eV by blast
    show ?thesis
    proof (cases "known < c")
      case True
      have step: "source_loop m (idx, speed) (pq, tsf, distances)
                    = source_loop m (idx, speed) (?rest, tsf, distances)"
        using False pop known(1) True by (subst source_loop.simps) simp
      note st = dij_pop_stale[OF inv mem ue known(1) True]
      have "dij_measure 4 V ?rest tsf < dij_measure 4 V pq tsf"
        using mem st(2) by (rule dij_measure_stale)
      from less.hyps[OF this st(1) ok] obtain d' where
        d': "source_loop m (idx, speed) (?rest, tsf, distances) = Some (Inr d')" "times_ok n d'"
            "distances \<noteq> [] \<or> (\<exists>c u. (c, u) \<in> set ?rest \<and> tsf u = Some c) \<longrightarrow> d' \<noteq> []"
            "(\<forall>(p, tms) \<in> set distances. map_of tms idx \<noteq> None)
               \<longrightarrow> (\<forall>(p, tms) \<in> set d'. map_of tms idx \<noteq> None)"
        by blast
      have keep: "\<exists>c u. (c, u) \<in> set ?rest \<and> tsf u = Some c"
        if "\<exists>c u. (c, u) \<in> set pq \<and> tsf u = Some c"
      proof -
        from that obtain c' u' where cu': "(c', u') \<in> set pq" "tsf u' = Some c'" by blast
        have "(c', u') \<noteq> (c, u)"
        proof
          assume "(c', u') = (c, u)"
          with cu'(2) known(1) True show False by simp
        qed
        with cu'(1) have "(c', u') \<in> set ?rest" by simp
        with cu'(2) show ?thesis by blast
      qed
      have "distances \<noteq> [] \<or> (\<exists>c u. (c, u) \<in> set pq \<and> tsf u = Some c) \<longrightarrow> d' \<noteq> []"
        using d'(3) keep by blast
      with step d'(1,2,4) show ?thesis by simp
    next
      case nl: False
      with known(2) have kc: "known = c" by simp
      with known(1) have cu: "tsf u = Some c" by simp
      from D(5)[OF cu] have cfin: "c \<noteq> PosInf" by auto
      note fr = dij_pop_fresh[OF inv mn mem ue cu]
      have "\<exists>pq' csf' cf'.
         fold (relax ?w c u) (?nb u) (?rest, tsf, cf) = (pq', csf', cf') \<and>
         dij_inv ?nb ?w V s e (Some u) pq' csf' cf' \<and>
         settled pq' csf' = settled ?rest tsf \<and>
         length pq' \<le> length ?rest + length (?nb u) \<and>
         (\<forall>n\<in>set (?nb u). \<exists>kn. csf' n = Some kn \<and> kn \<le> c + ?w n) \<and>
         (\<forall>v k. tsf v = Some k \<longrightarrow> (\<exists>k'. csf' v = Some k' \<and> k' \<le> k)) \<and>
         csf' u = Some c"
        using fr(1) cu
      proof (rule dij_fold)
        show "set (?nb u) \<subseteq> set (?nb u)" by simp
        show "\<And>x y. y \<in> set (?nb x) \<Longrightarrow> \<exists>r. ?w y = Num r \<and> 0 < r" by (rule wpos)
        show "\<And>x. set (?nb x) \<subseteq> V" by (rule closed)
      qed
      then obtain pq' csf' cf' where
        f: "fold (relax ?w c u) (?nb u) (?rest, tsf, cf) = (pq', csf', cf')"
           "dij_inv ?nb ?w V s e (Some u) pq' csf' cf'"
           "settled pq' csf' = settled ?rest tsf"
           "length pq' \<le> length ?rest + length (?nb u)"
           "\<forall>n\<in>set (?nb u). \<exists>kn. csf' n = Some kn \<and> kn \<le> c + ?w n"
           "csf' u = Some c"
        by blast
      have inv': "dij_inv ?nb ?w V s e None pq' csf' cf'"
        using f(2,6,5) by (rule dij_close)
      have fe: "fold_err (relax_time m speed c) (?nb u) (?rest, tsf) = Inr (pq', csf')"
        using s0 f(1) by (rule fold_relax_time)
      let ?d1 = "record_time u idx c distances"
      have step: "source_loop m (idx, speed) (pq, tsf, distances)
                    = source_loop m (idx, speed) (pq', csf', ?d1)"
        using False pop cu fe by (subst source_loop.simps) simp
      have ok1: "times_ok n ?d1" using ok idx cfin by (rule times_ok_record)
      have s': "settled pq' csf' = (settled pq tsf)(u := True)" using f(3) fr(2) by simp
      have "dij_measure 4 V pq' csf' < dij_measure 4 V pq tsf"
        using fin mem uV fr(3) s' f(4) K by (rule dij_measure_fresh)
      from less.hyps[OF this inv' ok1] obtain d' where
        d': "source_loop m (idx, speed) (pq', csf', ?d1) = Some (Inr d')" "times_ok n d'"
            "?d1 \<noteq> [] \<or> (\<exists>c u. (c, u) \<in> set pq' \<and> csf' u = Some c) \<longrightarrow> d' \<noteq> []"
            "(\<forall>(p, tms) \<in> set ?d1. map_of tms idx \<noteq> None)
               \<longrightarrow> (\<forall>(p, tms) \<in> set d'. map_of tms idx \<noteq> None)"
        by blast
      have ne: "d' \<noteq> []" using d'(3) record_time_nonempty by blast
      have hi: "(\<forall>(p, tms) \<in> set distances. map_of tms idx \<noteq> None)
               \<longrightarrow> (\<forall>(p, tms) \<in> set d'. map_of tms idx \<noteq> None)"
        using d'(4) record_time_has_idx[of distances idx u c] by blast
      from step d'(1,2) ne hi show ?thesis by simp
    qed
  qed
qed

lemma outside_maze_cells: "(-1, -1) \<notin> maze_cells m"
  by (simp add: maze_cells_def)

lemma compute_sources_total:
  assumes "\<forall>(idx, src, speed) \<in> set l. idx < n \<and> 0 < speed" and "times_ok n distances"
  shows "\<exists>d'. compute_sources m l distances = Some (Inr d') \<and> times_ok n d'"
  using assms
proof (induction l arbitrary: distances)
  case Nil
  then show ?case by simp
next
  case (Cons a l)
  obtain idx src speed where a: "a = (idx, src, speed)" by (cases a)
  from Cons.prems(1) a have idx: "idx < n" and speed: "0 < speed"
    and rest: "\<forall>(idx, src, speed) \<in> set l. idx < n \<and> 0 < speed" by auto
  show ?case
  proof (cases "is_valid_position m src")
    case False
    with Cons.IH[OF rest Cons.prems(2)] a show ?thesis by simp
  next
    case True
    then have sV: "src \<in> maze_cells m" by (rule is_valid_position_cells)
    have inv: "dij_inv (TerrainMaze_get_neighbors m) (time_to_move m speed) (maze_cells m) src
                 (-1, -1) None [(0, src)] [src \<mapsto> 0] [src \<mapsto> None]"
      using sV by (rule dij_inv_init)
    from source_loop_total[OF finite_maze_cells TerrainMaze_get_neighbors_cells speed idx
        outside_maze_cells inv Cons.prems(2)]
    obtain d1 where d1: "source_loop m (idx, speed) ([(0, src)], [src \<mapsto> 0], distances) = Some (Inr d1)"
      "times_ok n d1" by blast
    from Cons.IH[OF rest d1(2)] obtain d' where
      "compute_sources m l d1 = Some (Inr d')" "times_ok n d'" by blast
    with True a d1(1) show ?thesis by simp
  qed
qed

lemma zip_sources_ok:
  assumes "length sp = length srcs" and "\<forall>v\<in>set sp. 0 < v"
  shows "\<forall>(idx, src, speed) \<in> set (zip [0..<length srcs] (zip srcs sp)). idx < length srcs \<and> 0 < speed"
proof -
  have "idx < length srcs \<and> 0 < speed"
    if "(idx, src, speed) \<in> set (zip [0..<length srcs] (zip srcs sp))" for idx src speed
  proof -
    from that have "idx \<in> set [0..<length srcs]" by (rule set_zip_leftD)
    moreover from that have "(src, speed) \<in> set (zip srcs sp)" by (rule set_zip_rightD)
    then have "speed \<in> set sp" by (rule set_zip_rightD)
    ultimately show ?thesis using assms(2) by simp
  qed
  then show ?thesis by blast
qed

lemma compute_distances_total:
  assumes "case sp of None \<Rightarrow> True | Some l \<Rightarrow> length l = length srcs \<and> (\<forall>v\<in>set l. 0 < v)"
  shows "\<exists>d. compute_distances_with_costs m srcs sp = Some (Inr d) \<and> times_ok (length srcs) d"
proof (cases "srcs = []")
  case True
  then show ?thesis by (simp add: compute_distances_with_costs_def times_ok_def)
next
  case False
  let ?sp = "case sp of None \<Rightarrow> replicate (length srcs) 1 | Some l \<Rightarrow> l"
  have len: "length ?sp = length srcs" and pos: "\<forall>v\<in>set ?sp. 0 < v"
    using assms by (auto split: option.splits)
  have e: "times_ok (length srcs) []" by (simp add: times_ok_def)
  from compute_sources_total[OF zip_sources_ok[OF len pos] e, of m]
  show ?thesis using False len by (simp add: compute_distances_with_costs_def)
qed

lemma times_ok_all_entries:
  assumes ok: "times_ok n distances" and mem: "(pos, tms) \<in> set distances"
  shows "(length tms = n) = has_all_entries n tms"
proof -
  from ok mem have d: "distinct (map fst tms)" and lt: "\<forall>(i, t) \<in> set tms. i < n"
    unfolding times_ok_def by blast+
  let ?K = "fst ` set tms"
  have card: "card ?K = length tms" using d by (metis distinct_card length_map set_map)
  have sub: "?K \<subseteq> {..<n}" using lt by auto
  have dom: "(map_of tms i \<noteq> None) = (i \<in> ?K)" for i
    by (simp add: map_of_eq_None_iff)
  show ?thesis
  proof
    assume "length tms = n"
    with card have "card ?K = card {..<n}" by simp
    with sub have "?K = {..<n}" by (intro card_subset_eq) simp_all
    then show "has_all_entries n tms" unfolding has_all_entries_def dom by simp
  next
    assume "has_all_entries n tms"
    then have "{..<n} \<subseteq> ?K" unfolding has_all_entries_def dom by blast
    with sub have "?K = {..<n}" by blast
    with card show "length tms = n" by simp
  qed
qed

lemma times_ok_finite_max:
  assumes ok: "times_ok n distances" and mem: "(pos, tms) \<in> set distances" and ne: "tms \<noteq> []"
  shows "max_arrival tms < PosInf"
proof -
  from ok mem have fin: "\<forall>(i, t) \<in> set tms. t \<noteq> PosInf" unfolding times_ok_def by blast
  have "Max (set (map snd tms)) \<in> set (map snd tms)" using ne by (intro Max_in) simp_all
  then obtain i where "(i, max_arrival tms) \<in> set tms" unfolding max_arrival_def by auto
  with fin have "max_arrival tms \<noteq> PosInf" by blast
  then show ?thesis by (cases "max_arrival tms") simp_all
qed

lemma consider_fold:
  assumes "\<forall>(pos, tms) \<in> set items. length tms = n \<longrightarrow> tms \<noteq> []"
  shows "\<exists>best' opt'. fold_err (consider_point n) items (best, opt) = Inr (best', opt') \<and>
           best' \<le> best \<and>
           (\<forall>(pos, tms) \<in> set items. length tms = n \<longrightarrow> best' \<le> max_arrival tms) \<and>
           (if best' < best
            then \<exists>pos tms. opt' = Some pos \<and> (pos, tms) \<in> set items \<and> length tms = n \<and>
                   max_arrival tms = best'
            else best' = best \<and> opt' = opt)"
  using assms
proof (induction items arbitrary: best opt)
  case Nil
  then show ?case by simp
next
  case (Cons a items)
  obtain pos tms where a: "a = (pos, tms)" by (cases a)
  from Cons.prems have rest: "\<forall>(pos, tms) \<in> set items. length tms = n \<longrightarrow> tms \<noteq> []" by simp
  show ?case
  proof (cases "length tms = n")
    case False
    have step: "consider_point n a (best, opt) = Inr (best, opt)"
      using False a by (simp add: consider_point_def)
    from Cons.IH[OF rest, of best opt] obtain best' opt' where
      r: "fold_err (consider_point n) items (best, opt) = Inr (best', opt')" "best' \<le> best"
         "\<forall>(pos, tms) \<in> set items. length tms = n \<longrightarrow> best' \<le> max_arrival tms"
         "if best' < best
          then \<exists>pos tms. opt' = Some pos \<and> (pos, tms) \<in> set items \<and> length tms = n \<and>
                 max_arrival tms = best'
          else best' = best \<and> opt' = opt"
      by blast
    have "fold_err (consider_point n) (a # items) (best, opt) = Inr (best', opt')"
      using step r(1) by simp
    moreover have "\<forall>(pos, tms) \<in> set (a # items). length tms = n \<longrightarrow> best' \<le> max_arrival tms"
      using r(3) False a by simp
    moreover have "if best' < best
          then \<exists>pos tms. opt' = Some pos \<and> (pos, tms) \<in> set (a # items) \<and> length tms = n \<and>
                 max_arrival tms = best'
          else best' = best \<and> opt' = opt"
      using r(4) by (cases "best' < best") auto
    ultimately show ?thesis using r(2) by blast
  next
    case True
    with Cons.prems a have ne: "tms \<noteq> []" by simp
    let ?mx = "max_arrival tms"
    show ?thesis
    proof (cases "?mx < best")
      case lt: True
      have step: "consider_point n a (best, opt) = Inr (?mx, Some pos)"
        using True ne a lt[unfolded max_arrival_def]
        by (simp add: consider_point_def max_arrival_def Let_def del: Max_less_iff)
      from Cons.IH[OF rest, of ?mx "Some pos"] obtain best' opt' where
        r: "fold_err (consider_point n) items (?mx, Some pos) = Inr (best', opt')" "best' \<le> ?mx"
           "\<forall>(pos, tms) \<in> set items. length tms = n \<longrightarrow> best' \<le> max_arrival tms"
           "if best' < ?mx
            then \<exists>pos tms. opt' = Some pos \<and> (pos, tms) \<in> set items \<and> length tms = n \<and>
                   max_arrival tms = best'
            else best' = ?mx \<and> opt' = Some pos"
        by blast
      have f: "fold_err (consider_point n) (a # items) (best, opt) = Inr (best', opt')"
        using step r(1) by simp
      have b: "best' < best" using r(2) lt by simp
      have all: "\<forall>(pos, tms) \<in> set (a # items). length tms = n \<longrightarrow> best' \<le> max_arrival tms"
        using r(2,3) a by simp
      have w: "\<exists>pos tms. opt' = Some pos \<and> (pos, tms) \<in> set (a # items) \<and> length tms = n \<and>
                 max_arrival tms = best'"
      proof (cases "best' < ?mx")
        case True
        with r(4) show ?thesis by auto
      next
        case False
        with r(4) have "best' = ?mx" "opt' = Some pos" by simp_all
        with a \<open>length tms = n\<close> show ?thesis by auto
      qed
      from f b all w show ?thesis by auto
    next
      case nlt: False
      have step: "consider_point n a (best, opt) = Inr (best, opt)"
        using True ne a nlt[unfolded max_arrival_def]
        by (simp add: consider_point_def Let_def del: Max_less_iff)
      from Cons.IH[OF rest, of best opt] obtain best' opt' where
        r: "fold_err (consider_point n) items (best, opt) = Inr (best', opt')" "best' \<le> best"
           "\<forall>(pos, tms) \<in> set items. length tms = n \<longrightarrow> best' \<le> max_arrival tms"
           "if best' < best
            then \<exists>pos tms. opt' = Some pos \<and> (pos, tms) \<in> set items \<and> length tms = n \<and>
                   max_arrival tms = best'
            else best' = best \<and> opt' = opt"
        by blast
      have f: "fold_err (consider_point n) (a # items) (best, opt) = Inr (best', opt')"
        using step r(1) by simp
      from nlt have "best \<le> ?mx" by simp
      with r(2) have "best' \<le> ?mx" by (rule order_trans)
      with r(3) a have all: "\<forall>(pos, tms) \<in> set (a # items). length tms = n \<longrightarrow> best' \<le> max_arrival tms"
        by simp
      have w: "if best' < best
          then \<exists>pos tms. opt' = Some pos \<and> (pos, tms) \<in> set (a # items) \<and> length tms = n \<and>
                 max_arrival tms = best'
          else best' = best \<and> opt' = opt"
        using r(4) by (cases "best' < best") auto
      from f all w r(2) show ?thesis by blast
    qed
  qed
qed

lemma gathering_point_select:
  assumes "hero_positions \<noteq> []"
    and "case hero_speeds of None \<Rightarrow> True
         | Some sp \<Rightarrow> length sp = length hero_positions \<and> (\<forall>v\<in>set sp. 0 < v)"
  shows "\<exists>distances r.
     compute_distances_with_costs m hero_positions hero_speeds = Some (Inr distances) \<and>
     find_optimal_gathering_point m hero_positions hero_speeds = Some (Inr r) \<and>
     distinct (map fst distances) \<and>
     (\<forall>(pos, tms) \<in> set distances.
        (length tms = length hero_positions) = has_all_entries (length hero_positions) tms) \<and>
     (case r of
        None \<Rightarrow> \<forall>(pos, tms) \<in> set distances. \<not> has_all_entries (length hero_positions) tms
      | Some p \<Rightarrow>
          \<exists>tms. (p, tms) \<in> set distances \<and> has_all_entries (length hero_positions) tms \<and>
            (\<forall>(pos', tms') \<in> set distances.
               has_all_entries (length hero_positions) tms' \<longrightarrow> max_arrival tms \<le> max_arrival tms'))"
proof -
  let ?n = "length hero_positions"
  have n0: "0 < ?n" using assms(1) by simp
  from compute_distances_total[OF assms(2), of m] obtain d where
    d: "compute_distances_with_costs m hero_positions hero_speeds = Some (Inr d)"
    and ok: "times_ok ?n d" by blast
  have dist: "distinct (map fst d)" using ok by (simp add: times_ok_def)
  have eq: "(length tms = ?n) = has_all_entries ?n tms" if "(pos, tms) \<in> set d" for pos tms
    using ok that by (rule times_ok_all_entries)
  have ne: "\<forall>(pos, tms) \<in> set d. length tms = ?n \<longrightarrow> tms \<noteq> []" using n0 by auto
  from consider_fold[OF ne, of PosInf None] obtain best' opt' where
    f: "fold_err (consider_point ?n) d (PosInf, None) = Inr (best', opt')"
    and all: "\<forall>(pos, tms) \<in> set d. length tms = ?n \<longrightarrow> best' \<le> max_arrival tms"
    and w: "if best' < PosInf
            then \<exists>pos tms. opt' = Some pos \<and> (pos, tms) \<in> set d \<and> length tms = ?n \<and>
                   max_arrival tms = best'
            else best' = PosInf \<and> opt' = None"
    by blast
  have res: "find_optimal_gathering_point m hero_positions hero_speeds = Some (Inr opt')"
  proof (cases "d = []")
    case True
    with f have "opt' = None" by simp
    with True d assms(1) show ?thesis by (simp add: find_optimal_gathering_point_def)
  next
    case False
    with d f assms(1) show ?thesis by (simp add: find_optimal_gathering_point_def)
  qed
  have sel: "case opt' of
        None \<Rightarrow> \<forall>(pos, tms) \<in> set d. \<not> has_all_entries ?n tms
      | Some p \<Rightarrow>
          \<exists>tms. (p, tms) \<in> set d \<and> has_all_entries ?n tms \<and>
            (\<forall>(pos', tms') \<in> set d. has_all_entries ?n tms' \<longrightarrow> max_arrival tms \<le> max_arrival tms')"
  proof (cases "best' < PosInf")
    case True
    with w obtain p tms where p: "opt' = Some p" "(p, tms) \<in> set d" "length tms = ?n"
      "max_arrival tms = best'" by auto
    have "has_all_entries ?n tms" using eq[OF p(2)] p(3) by simp
    moreover have "max_arrival tms \<le> max_arrival tms'"
      if "(pos', tms') \<in> set d" "has_all_entries ?n tms'" for pos' tms'
    proof -
      from eq[OF that(1)] that(2) have "length tms' = ?n" by simp
      with all that(1) have "best' \<le> max_arrival tms'" by auto
      with p(4) show ?thesis by simp
    qed
    ultimately show ?thesis using p(1,2) by auto
  next
    case False
    with w have b: "best' = PosInf" and o: "opt' = None" by simp_all
    have "\<not> has_all_entries ?n tms" if mem: "(pos, tms) \<in> set d" for pos tms
    proof
      assume "has_all_entries ?n tms"
      with eq[OF mem] have l: "length tms = ?n" by simp
      with n0 have "tms \<noteq> []" by auto
      with ok mem have "max_arrival tms < PosInf" by (rule times_ok_finite_max)
      moreover from all mem l b have "PosInf \<le> max_arrival tms" by auto
      ultimately show False by simp
    qed
    with o show ?thesis by auto
  qed
  from d res dist eq sel show ?thesis by blast
qed






lemma single_source_table:
  assumes valid: "is_valid_position m src" and speed: "0 < speed"
  shows "\<exists>d. compute_sources m [(0, src, speed)] [] = Some (Inr d) \<and> times_ok 1 d \<and> d \<noteq> [] \<and>
           (\<forall>(p, tms) \<in> set d. map_of tms 0 \<noteq> None)"
proof -
  have sV: "src \<in> maze_cells m" using valid by (rule is_valid_position_cells)
  have inv: "dij_inv (TerrainMaze_get_neighbors m) (time_to_move m speed) (maze_cells m) src
               (-1, -1) None [(0, src)] [src \<mapsto> 0] [src \<mapsto> None]"
    using sV by (rule dij_inv_init)
  have e: "times_ok 1 []" by (simp add: times_ok_def)
  have one: "(0::nat) < 1" by simp
  note total = source_loop_total[OF finite_maze_cells TerrainMaze_get_neighbors_cells speed one
      outside_maze_cells inv e]
  then obtain d where all: "source_loop m (0, speed) ([(0, src)], [src \<mapsto> 0], []) = Some (Inr d) \<and>
       times_ok 1 d \<and>
       (([] :: arrival_times) \<noteq> [] \<or> (\<exists>c u. (c, u) \<in> set [(0 :: pyfloat, src)] \<and> [src \<mapsto> 0 :: pyfloat] u = Some c)
          \<longrightarrow> d \<noteq> []) \<and>
       ((\<forall>(p, tms) \<in> set ([] :: arrival_times). map_of tms 0 \<noteq> None)
          \<longrightarrow> (\<forall>(p, tms) \<in> set d. map_of tms 0 \<noteq> None))" ..
  then have d: "source_loop m (0, speed) ([(0, src)], [src \<mapsto> 0], []) = Some (Inr d)"
    "times_ok 1 d"
    "([] :: arrival_times) \<noteq> [] \<or> (\<exists>c u. (c, u) \<in> set [(0 :: pyfloat, src)] \<and> [src \<mapsto> 0 :: pyfloat] u = Some c)
       \<longrightarrow> d \<noteq> []"
    "(\<forall>(p, tms) \<in> set ([] :: arrival_times). map_of tms 0 \<noteq> None)
       \<longrightarrow> (\<forall>(p, tms) \<in> set d. map_of tms 0 \<noteq> None)"
    by blast+
  have "\<exists>c u. (c, u) \<in> set [(0 :: pyfloat, src)] \<and> [src \<mapsto> 0 :: pyfloat] u = Some c"
    by (intro exI[of _ 0] exI[of _ src]) simp
  with d(3) have "d \<noteq> []" by blast
  moreover have "\<forall>(p, tms) \<in> set d. map_of tms 0 \<noteq> None" using d(4) by simp
  ultimately show ?thesis using d(1,2) valid by simp
qed

lemma single_source_point:
  assumes valid: "is_valid_position m src"
    and sp: "sp = None \<or> (\<exists>v. sp = Some [v] \<and> 0 < v)"
  shows "\<exists>p. find_optimal_gathering_point m [src] sp = Some (Inr (Some p))"
proof -
  obtain speed where speed: "0 < speed"
    and sp': "(case sp of None \<Rightarrow> replicate (length [src]) 1 | Some l \<Rightarrow> l) = [speed]"
    using sp by (cases sp) auto
  from single_source_table[OF valid speed] obtain d where
    d: "compute_sources m [(0, src, speed)] [] = Some (Inr d)" "d \<noteq> []"
       "\<forall>(p, tms) \<in> set d. map_of tms 0 \<noteq> None" by blast
  have cd: "compute_distances_with_costs m [src] sp = Some (Inr d)"
    using d(1) sp' by (simp add: compute_distances_with_costs_def)
  have hyp: "case sp of None \<Rightarrow> True | Some l \<Rightarrow> length l = length [src] \<and> (\<forall>v\<in>set l. 0 < v)"
    using sp by auto
  from gathering_point_select[of "[src]" sp m, OF _ hyp] cd obtain r where
    r: "find_optimal_gathering_point m [src] sp = Some (Inr r)"
       "case r of None \<Rightarrow> \<forall>(pos, tms) \<in> set d. \<not> has_all_entries (length [src]) tms
        | Some p \<Rightarrow> True"
    by (auto split: option.splits)
  from d(2) obtain pos tms where mem: "(pos, tms) \<in> set d" by (cases d) auto
  with d(3) have "map_of tms 0 \<noteq> None" by blast
  then have "has_all_entries (length [src]) tms" by (simp add: has_all_entries_def)
  with r(2) mem have "r \<noteq> None" by (cases r) auto
  with r(1) show ?thesis by auto
qed




section \<open>The meeting point of a single source\<close>

text \<open>
  Claim C6, amended. With fewer than two heroes \<open>find_equidistant_point\<close> returns \<open>None\<close>
  and raises nothing. \<open>find_optimal_gathering_point\<close> is guarded against the empty list
  of sources only, where it returns \<open>None\<close> and raises nothing. A single source is computed
  with: when it is not a valid position of the grid (off the grid or a wall cell) and no
  speeds or one speed are given, no arrival time is recorded and the result is \<open>None\<close>;
  when it is a valid position and no speeds or one positive speed are given, the result is
  a coordinate and never \<open>None\<close>; when the list of speeds given has another length than
  one, ValueError is raised.
\<close>

theorem fewer_than_two:
  "(length (get_hero_positions m) < 2 \<longrightarrow> find_equidistant_point nb m = Some None) \<and>
   find_optimal_gathering_point m [] sp = Some (Inr None) \<and>
   (\<not> is_valid_position m src \<and> (sp = None \<or> (\<exists>v. sp = Some [v]))
      \<longrightarrow> find_optimal_gathering_point m [src] sp = Some (Inr None)) \<and>
   (is_valid_position m src \<and> (sp = None \<or> (\<exists>v. sp = Some [v] \<and> 0 < v))
      \<longrightarrow> (\<exists>p. find_optimal_gathering_point m [src] sp = Some (Inr (Some p)))) \<and>
   (length l \<noteq> 1 \<longrightarrow> find_optimal_gathering_point m [src] (Some l) = Some (Inl ValueError))"
proof (intro conjI impI)
  show "find_equidistant_point nb m = Some None" if "length (get_hero_positions m) < 2"
    using that by (simp add: find_equidistant_point_def)
  show "find_optimal_gathering_point m [] sp = Some (Inr None)"
    by (simp add: find_optimal_gathering_point_def)
  show "find_optimal_gathering_point m [src] sp = Some (Inr None)"
    if "\<not> is_valid_position m src \<and> (sp = None \<or> (\<exists>v. sp = Some [v]))"
    using that by (auto simp: find_optimal_gathering_point_def compute_distances_with_costs_def)
  show "\<exists>p. find_optimal_gathering_point m [src] sp = Some (Inr (Some p))"
    if "is_valid_position m src \<and> (sp = None \<or> (\<exists>v. sp = Some [v] \<and> 0 < v))"
  proof (rule single_source_point)
    show "is_valid_position m src" using that by simp
    show "sp = None \<or> (\<exists>v. sp = Some [v] \<and> 0 < v)" using that by simp
  qed
  show "find_optimal_gathering_point m [src] (Some l) = Some (Inl ValueError)" if "length l \<noteq> 1"
    using that by (auto simp: find_optimal_gathering_point_def compute_distances_with_costs_def)
qed

theorem fewer_than_two_witness:
  "find_equidistant_point Maze_get_neighbors
     \<lparr>grid = [[StrCell ''1'', IntCell 0]], height = 1, width = 2,
      heroes = [(StrCell ''1'', (0, 0))], end_pos = None\<rparr> = Some None \<and>
   find_optimal_gathering_point
     \<lparr>grid = [[StrCell ''1'', IntCell 0]], height = 1, width = 2,
      heroes = [(StrCell ''1'', (0, 0))], end_pos = None\<rparr> [(5, 5)] None = Some (Inr None) \<and>
   (\<exists>p. find_optimal_gathering_point
     \<lparr>grid = [[StrCell ''1'', IntCell 0]], height = 1, width = 2,
      heroes = [(StrCell ''1'', (0, 0))], end_pos = None\<rparr> [(0, 0)] None = Some (Inr (Some p))) \<and>
   find_optimal_gathering_point
     \<lparr>grid = [[StrCell ''1'', IntCell 0]], height = 1, width = 2,
      heroes = [(StrCell ''1'', (0, 0))], end_pos = None\<rparr> [(0, 0)] (Some []) = Some (Inl ValueError)"
  using fewer_than_two
    [of "\<lparr>grid = [[StrCell ''1'', IntCell 0]], height = 1, width = 2,
          heroes = [(StrCell ''1'', (0, 0))], end_pos = None\<rparr>" Maze_get_neighbors None "(5, 5)" "[]"]
    fewer_than_two
    [of "\<lparr>grid = [[StrCell ''1'', IntCell 0]], height = 1, width = 2,
          heroes = [(StrCell ''1'', (0, 0))], end_pos = None\<rparr>" Maze_get_neighbors None "(0, 0)" "[]"]
  by (simp add: get_hero_positions_def is_valid_position_def)

end
